theory Spec2Isabelle
  imports
    Main
    "HOL-Library.Multiset"
    "HOL-Library.Char_ord"
    "HOL-Library.List_Lexorder"
    "HOL-Library.Product_Lexorder"
    "HOL-Library.Sublist"
begin

section \<open>The communication matrix: data model\<close>

text \<open>
  The Go package \<^verbatim>\<open>types\<close> keeps a communication matrix as a slice of \<^verbatim>\<open>ComDetails\<close>
  structs. Go strings are byte sequences, which is what \<^typ>\<open>string\<close> is. \<^verbatim>\<open>Port\<close> is a Go
  \<^verbatim>\<open>int\<close>; the package only compares and prints it, so it is an \<^typ>\<open>int\<close> here and no
  wrap-around can arise.
\<close>

record ComDetails =
  Direction :: string
  Protocol :: string
  Port :: int
  Namespace :: string
  Service :: string
  Pod :: string
  Container :: string
  NodeRole :: string
  Optional :: bool

datatype error = Errorf string

subsection \<open>Formatting verbs of \<^verbatim>\<open>fmt\<close>\<close>

definition digit_char :: "nat \<Rightarrow> char" where
  "digit_char d = char_of (48 + d)"

fun digits :: "nat \<Rightarrow> string" where
  "digits n = (if n < 10 then [digit_char n] else digits (n div 10) @ [digit_char (n mod 10)])"

text \<open>The verb \<^verbatim>\<open>%d\<close> (and \<^verbatim>\<open>fmt.Sprint\<close>) on an integer: decimal, with a minus sign.\<close>

definition fmt_d :: "int \<Rightarrow> string" where
  "fmt_d i = (if i < 0 then CHR ''-'' # digits (nat (- i)) else digits (nat i))"

text \<open>The verb \<^verbatim>\<open>%v\<close> on a boolean.\<close>

definition fmt_v :: "bool \<Rightarrow> string" where
  "fmt_v b = (if b then ''true'' else ''false'')"

subsection \<open>\<^verbatim>\<open>ComDetails\<close> methods\<close>

text \<open>\<^verbatim>\<open>fmt.Sprintf("%s-%d-%s", cd.NodeRole, cd.Port, cd.Protocol)\<close>, the key that both
  \<^verbatim>\<open>Equals\<close> and \<^verbatim>\<open>deleteDuplicates\<close> build.\<close>

definition key_string :: "ComDetails \<Rightarrow> string" where
  "key_string cd = NodeRole cd @ ''-'' @ fmt_d (Port cd) @ ''-'' @ Protocol cd"

definition Equals :: "ComDetails \<Rightarrow> ComDetails \<Rightarrow> bool" where
  "Equals cd other =
     (let strComDetail1 = key_string cd;
          strComDetail2 = key_string other
      in strComDetail1 = strComDetail2)"

definition String_ComDetails :: "ComDetails \<Rightarrow> string" where
  "String_ComDetails cd =
     Direction cd @ '','' @ Protocol cd @ '','' @ fmt_d (Port cd) @ '','' @ Namespace cd @ '','' @
     Service cd @ '','' @ Pod cd @ '','' @ Container cd @ '','' @ NodeRole cd @ '','' @
     fmt_v (Optional cd)"

text \<open>\<^verbatim>\<open>cmp.Compare\<close>: \<open>-1\<close>, \<open>0\<close> or \<open>+1\<close>. On strings Go compares bytewise
  lexicographically, which is the order of \<^typ>\<open>string\<close> here.\<close>

definition cmp_Compare :: "'a::linorder \<Rightarrow> 'a \<Rightarrow> int" where
  "cmp_Compare x y = (if x < y then - 1 else if y < x then 1 else 0)"

text \<open>The comparison closure that \<^verbatim>\<open>sort\<close> hands to \<^verbatim>\<open>slices.SortFunc\<close>.\<close>

definition sort_cmp :: "ComDetails \<Rightarrow> ComDetails \<Rightarrow> int" where
  "sort_cmp a b =
     (let res = cmp_Compare (NodeRole a) (NodeRole b) in
      if res \<noteq> 0 then res
      else let res = cmp_Compare (Protocol a) (Protocol b) in
        if res \<noteq> 0 then res
        else cmp_Compare (Port a) (Port b))"

subsection \<open>Library functions the package calls\<close>

text \<open>
  The package calls library code that is not part of it: \<^verbatim>\<open>slices.SortFunc\<close>, the
  reallocation policy of the built-in \<^verbatim>\<open>append\<close>, three marshallers, and the text that
  \<^verbatim>\<open>%v\<close> prints for a \<^verbatim>\<open>reflect.StructField\<close> (given here the name of the field). They are
  parameters of the model. \<^verbatim>\<open>growslice\<close> proposes a capacity from the old one; \<^verbatim>\<open>append\<close>
  takes at least the length it needs.
\<close>

record extern =
  slices_SortFunc :: "(ComDetails \<Rightarrow> ComDetails \<Rightarrow> int) \<Rightarrow> ComDetails list \<Rightarrow> ComDetails list"
  growslice :: "nat \<Rightarrow> nat"
  json_MarshalIndent :: "ComDetails list \<Rightarrow> error + string"
  gocsv_MarshalCSV :: "ComDetails list \<Rightarrow> error + string"
  yaml_Marshal :: "ComDetails list \<Rightarrow> error + string"
  fmt_StructField :: "string \<Rightarrow> string"

text \<open>
  What the documentation of \<^verbatim>\<open>slices.SortFunc\<close> promises for the comparison function of
  this package: the slice is rearranged (same elements) into ascending order as determined
  by the comparison. The documentation adds that the sort is not guaranteed to be stable.
\<close>

definition SortFunc_spec :: "extern \<Rightarrow> bool" where
  "SortFunc_spec E =
     (\<forall>xs. mset (slices_SortFunc E sort_cmp xs) = mset xs \<and>
           sorted_wrt (\<lambda>a b. sort_cmp a b \<le> 0) (slices_SortFunc E sort_cmp xs))"

text \<open>
  What the Go library does on a slice of up to 12 elements: insertion sort, in which each
  element moves left while it compares less than its left neighbour. The accumulator holds
  the sorted prefix, last element first.
\<close>

fun insert_left :: "('a \<Rightarrow> 'a \<Rightarrow> int) \<Rightarrow> 'a \<Rightarrow> 'a list \<Rightarrow> 'a list" where
  "insert_left cmp x [] = [x]"
| "insert_left cmp x (y # ys) = (if cmp x y < 0 then y # insert_left cmp x ys else x # y # ys)"

definition insertionSortCmpFunc :: "('a \<Rightarrow> 'a \<Rightarrow> int) \<Rightarrow> 'a list \<Rightarrow> 'a list" where
  "insertionSortCmpFunc cmp xs = rev (fold (insert_left cmp) xs [])"

text \<open>
  An environment for concrete runs on short slices: insertion sort, and a capacity that
  doubles, as the Go runtime does for small slices. The marshallers and the field rendering
  play no part in these runs and are placeholders.
\<close>

definition fail_marshal :: "ComDetails list \<Rightarrow> error + string" where
  "fail_marshal xs = Inl (Errorf ''marshal'')"

definition std_extern :: extern where
  "std_extern = \<lparr>slices_SortFunc = insertionSortCmpFunc, growslice = (\<lambda>c. 2 * c),
     json_MarshalIndent = fail_marshal, gocsv_MarshalCSV = fail_marshal,
     yaml_Marshal = fail_marshal, fmt_StructField = (\<lambda>name. name)\<rparr>"

text \<open>
  What the Go library does on a slice of 13 elements, the shortest on which it leaves
  insertion sort (\<^verbatim>\<open>pdqsort\<close> in package \<^verbatim>\<open>slices\<close>): it takes as pivot the median of the
  elements at a quarter, a half and three quarters of the slice; if these three were in
  order and the whole slice has no descent, it is done; otherwise it partitions around the
  pivot, which it first swaps to the front, and sorts the two sides, now of at most 12
  elements, by insertion. The loops of the partition are rendered with \<^const>\<open>takeWhile\<close>:
  \<open>scan_up\<close> moves \<open>i\<close> up over elements less than the pivot, \<open>scan_down\<close> moves \<open>j\<close> down
  over elements not less than it. On longer slices the library goes through further rounds,
  which are not transcribed: \<open>go_SortFunc\<close> falls back to insertion sort there, and nothing
  below runs it on more than 13 elements.
\<close>

datatype sortedHint = unknownHint | increasingHint | decreasingHint

definition swap_at :: "'a list \<Rightarrow> nat \<Rightarrow> nat \<Rightarrow> 'a list" where
  "swap_at data i j = data[i := data ! j, j := data ! i]"

definition order2CmpFunc ::
  "('a \<Rightarrow> 'a \<Rightarrow> int) \<Rightarrow> 'a list \<Rightarrow> nat \<Rightarrow> nat \<Rightarrow> nat \<Rightarrow> nat \<times> nat \<times> nat" where
  "order2CmpFunc cmp data a b swaps =
     (if cmp (data ! b) (data ! a) < 0 then (b, a, swaps + 1) else (a, b, swaps))"

definition medianCmpFunc ::
  "('a \<Rightarrow> 'a \<Rightarrow> int) \<Rightarrow> 'a list \<Rightarrow> nat \<Rightarrow> nat \<Rightarrow> nat \<Rightarrow> nat \<Rightarrow> nat \<times> nat" where
  "medianCmpFunc cmp data a b c swaps =
     (case order2CmpFunc cmp data a b swaps of (a, b, swaps) \<Rightarrow>
       (case order2CmpFunc cmp data b c swaps of (b, c, swaps) \<Rightarrow>
         (case order2CmpFunc cmp data a b swaps of (a, b, swaps) \<Rightarrow> (b, swaps))))"

definition medianAdjacentCmpFunc ::
  "('a \<Rightarrow> 'a \<Rightarrow> int) \<Rightarrow> 'a list \<Rightarrow> nat \<Rightarrow> nat \<Rightarrow> nat \<times> nat" where
  "medianAdjacentCmpFunc cmp data a swaps = medianCmpFunc cmp data (a - 1) a (a + 1) swaps"

definition choosePivotCmpFunc ::
  "('a \<Rightarrow> 'a \<Rightarrow> int) \<Rightarrow> 'a list \<Rightarrow> nat \<Rightarrow> nat \<Rightarrow> nat \<times> sortedHint" where
  "choosePivotCmpFunc cmp data a b =
     (let l = b - a; i = a + l div 4 * 1; j = a + l div 4 * 2; k = a + l div 4 * 3 in
      case (if l \<ge> 8
            then (if l \<ge> 50
                  then (case medianAdjacentCmpFunc cmp data i 0 of (i, swaps) \<Rightarrow>
                         (case medianAdjacentCmpFunc cmp data j swaps of (j, swaps) \<Rightarrow>
                           (case medianAdjacentCmpFunc cmp data k swaps of (k, swaps) \<Rightarrow>
                              medianCmpFunc cmp data i j k swaps)))
                  else medianCmpFunc cmp data i j k 0)
            else (j, 0)) of
        (j, swaps) \<Rightarrow>
          if swaps = 0 then (j, increasingHint)
          else if swaps = 4 * 3 then (j, decreasingHint)
          else (j, unknownHint))"

definition reverseRangeCmpFunc :: "'a list \<Rightarrow> nat \<Rightarrow> nat \<Rightarrow> 'a list" where
  "reverseRangeCmpFunc data a b = take a data @ rev (take (b - a) (drop a data)) @ drop b data"

definition first_descent :: "('a \<Rightarrow> 'a \<Rightarrow> int) \<Rightarrow> 'a list \<Rightarrow> nat \<Rightarrow> nat \<Rightarrow> nat" where
  "first_descent cmp data a b =
     a + 1 + length (takeWhile (\<lambda>(x, y). \<not> cmp y x < 0)
                       (zip (take (b - a - 1) (drop a data)) (take (b - a - 1) (drop (a + 1) data))))"

definition scan_up :: "('a \<Rightarrow> 'a \<Rightarrow> int) \<Rightarrow> 'a list \<Rightarrow> nat \<Rightarrow> nat \<Rightarrow> nat \<Rightarrow> nat" where
  "scan_up cmp data a i j =
     i + length (takeWhile (\<lambda>x. cmp x (data ! a) < 0) (take (Suc j - i) (drop i data)))"

definition scan_down :: "('a \<Rightarrow> 'a \<Rightarrow> int) \<Rightarrow> 'a list \<Rightarrow> nat \<Rightarrow> nat \<Rightarrow> nat \<Rightarrow> nat" where
  "scan_down cmp data a i j =
     j - length (takeWhile (\<lambda>x. \<not> cmp x (data ! a) < 0) (rev (take (Suc j - i) (drop i data))))"

function partition_loop ::
  "('a \<Rightarrow> 'a \<Rightarrow> int) \<Rightarrow> 'a list \<Rightarrow> nat \<Rightarrow> nat \<Rightarrow> nat \<Rightarrow> 'a list \<times> nat" where
  "partition_loop cmp data a i j =
     (let i' = scan_up cmp data a i j; j' = scan_down cmp data a i' j in
      if i' > j' then (data, j')
      else partition_loop cmp (swap_at data i' j') a (i' + 1) (j' - 1))"
  by pat_completeness auto
termination
proof (relation "measure (\<lambda>(cmp, data, a, i, j). Suc j - i)", goal_cases)
  case 1
  show ?case by simp
next
  case (2 cmp data a i j i' j')
  have "i \<le> scan_up cmp data a i j" by (simp add: scan_up_def)
  moreover have "scan_down cmp data a i' j \<le> j" by (simp add: scan_down_def)
  ultimately show ?case using 2 by simp
qed

definition partitionCmpFunc ::
  "('a \<Rightarrow> 'a \<Rightarrow> int) \<Rightarrow> 'a list \<Rightarrow> nat \<Rightarrow> nat \<Rightarrow> nat \<Rightarrow> 'a list \<times> nat \<times> bool" where
  "partitionCmpFunc cmp data0 a b pivot =
     (let data = swap_at data0 a pivot;
          i = scan_up cmp data a (a + 1) (b - 1);
          j = scan_down cmp data a i (b - 1) in
      if i > j then (swap_at data j a, j, True)
      else (case partition_loop cmp (swap_at data i j) a (i + 1) (j - 1) of
              (data', j') \<Rightarrow> (swap_at data' j' a, j', False)))"

definition insertion_range :: "('a \<Rightarrow> 'a \<Rightarrow> int) \<Rightarrow> 'a list \<Rightarrow> nat \<Rightarrow> nat \<Rightarrow> 'a list" where
  "insertion_range cmp data a b =
     take a data @ insertionSortCmpFunc cmp (take (b - a) (drop a data)) @ drop b data"

definition pdqsort13 :: "('a \<Rightarrow> 'a \<Rightarrow> int) \<Rightarrow> 'a list \<Rightarrow> 'a list" where
  "pdqsort13 cmp data0 =
     (case choosePivotCmpFunc cmp data0 0 13 of (pivot0, hint0) \<Rightarrow>
        (case (if hint0 = decreasingHint
               then (reverseRangeCmpFunc data0 0 13, (13 - 1) - (pivot0 - 0), increasingHint)
               else (data0, pivot0, hint0)) of
           (data, pivot, hint) \<Rightarrow>
             if hint = increasingHint \<and> first_descent cmp data 0 13 = 13 then data
             else (case partitionCmpFunc cmp data 0 13 pivot of
                     (data', mid, alreadyPartitioned) \<Rightarrow>
                       insertion_range cmp (insertion_range cmp data' 0 mid) (mid + 1) 13)))"

definition go_SortFunc :: "('a \<Rightarrow> 'a \<Rightarrow> int) \<Rightarrow> 'a list \<Rightarrow> 'a list" where
  "go_SortFunc cmp x = (if length x = 13 then pdqsort13 cmp x else insertionSortCmpFunc cmp x)"

definition go_extern :: extern where
  "go_extern = std_extern\<lparr>slices_SortFunc := go_SortFunc\<rparr>"

subsection \<open>Slices over a store of backing arrays\<close>

text \<open>
  A Go slice is a window on a backing array; two slices on one array see each other's
  writes. The store is the list of the backing arrays allocated so far, a slice is the
  index of its array and its length. Every slice of this package starts at the first
  element of its array and none is cut by a slice expression, so the capacity is the length
  of the array.
\<close>

type_synonym store = "ComDetails list list"

record slice =
  base :: nat
  len :: nat

record ComMatrix =
  Matrix :: slice

definition backing :: "store \<Rightarrow> slice \<Rightarrow> ComDetails list" where
  "backing st s = (if base s < length st then st ! base s else [])"

definition elems :: "store \<Rightarrow> slice \<Rightarrow> ComDetails list" where
  "elems st s = take (len s) (backing st s)"

definition cap :: "store \<Rightarrow> slice \<Rightarrow> nat" where
  "cap st s = length (backing st s)"

definition zero_ComDetails :: ComDetails where
  "zero_ComDetails = \<lparr>Direction = [], Protocol = [], Port = 0, Namespace = [], Service = [],
     Pod = [], Container = [], NodeRole = [], Optional = False\<rparr>"

text \<open>The composite literal \<^verbatim>\<open>[]ComDetails{}\<close>: a new slice of length and capacity 0.\<close>

definition empty_slice :: "store \<Rightarrow> slice \<times> store" where
  "empty_slice st = (\<lparr>base = length st, len = 0\<rparr>, st @ [[]])"

text \<open>The built-in \<^verbatim>\<open>append(s, x)\<close>: with room left it writes into the array of \<open>s\<close>,
  otherwise it copies the elements into a new, larger array.\<close>

definition append_go :: "extern \<Rightarrow> store \<Rightarrow> slice \<Rightarrow> ComDetails \<Rightarrow> slice \<times> store" where
  "append_go E st s x =
     (if len s < cap st s
      then (s\<lparr>len := len s + 1\<rparr>, st[base s := (backing st s)[len s := x]])
      else let newcap = max (len s + 1) (growslice E (cap st s)) in
        (\<lparr>base = length st, len = len s + 1\<rparr>,
         st @ [elems st s @ x # replicate (newcap - (len s + 1)) zero_ComDetails]))"

text \<open>\<^verbatim>\<open>slices.SortFunc(s, cmp)\<close> rearranges the elements of \<open>s\<close> in place.\<close>

definition SortFunc_in_place ::
  "extern \<Rightarrow> (ComDetails \<Rightarrow> ComDetails \<Rightarrow> int) \<Rightarrow> store \<Rightarrow> slice \<Rightarrow> store" where
  "SortFunc_in_place E cmp st s =
     st[base s := slices_SortFunc E cmp (elems st s) @ drop (len s) (backing st s)]"

text \<open>A store of literal matrices, none with spare capacity, for concrete runs.\<close>

definition matrix_at :: "nat \<Rightarrow> store \<Rightarrow> ComMatrix" where
  "matrix_at i st = \<lparr>Matrix = \<lparr>base = i, len = length (st ! i)\<rparr>\<rparr>"

subsection \<open>\<^verbatim>\<open>ComMatrix\<close> methods\<close>

fun Contains_loop :: "ComDetails list \<Rightarrow> ComDetails \<Rightarrow> bool" where
  "Contains_loop [] cd = False"
| "Contains_loop (cd1 # rest) cd = (if Equals cd1 cd then True else Contains_loop rest cd)"

definition Contains :: "store \<Rightarrow> ComMatrix \<Rightarrow> ComDetails \<Rightarrow> bool" where
  "Contains st m cd = Contains_loop (elems st (Matrix m)) cd"

definition sort_matrix :: "extern \<Rightarrow> store \<Rightarrow> ComMatrix \<Rightarrow> store" where
  "sort_matrix E st m = SortFunc_in_place E sort_cmp st (Matrix m)"

text \<open>\<^verbatim>\<open>combine\<close> starts from the slice of the receiver itself, appends to it and sorts the
  outcome in place. The range loop reads \<open>other\<close> as it is on entry: the model takes the two
  matrices to lie in different arrays.\<close>

definition combine_step ::
  "extern \<Rightarrow> ComMatrix \<Rightarrow> ComDetails \<Rightarrow> slice \<times> store \<Rightarrow> slice \<times> store" where
  "combine_step E m cd acc =
     (case acc of (combinedComDetails, st) \<Rightarrow>
        if \<not> Contains st m cd then append_go E st combinedComDetails cd
        else (combinedComDetails, st))"

definition combine :: "extern \<Rightarrow> store \<Rightarrow> ComMatrix \<Rightarrow> ComMatrix \<Rightarrow> ComMatrix \<times> store" where
  "combine E st m other =
     (case fold (combine_step E m) (elems st (Matrix other)) (Matrix m, st) of
        (combinedComDetails, st1) \<Rightarrow>
          let combinedComMatrix = \<lparr>Matrix = combinedComDetails\<rparr>
          in (combinedComMatrix, sort_matrix E st1 combinedComMatrix))"

text \<open>A Go map read at a missing key gives the zero value.\<close>

definition map_get :: "(string \<rightharpoonup> int) \<Rightarrow> string \<Rightarrow> int" where
  "map_get mp k = (case mp k of None \<Rightarrow> 0 | Some v \<Rightarrow> v)"

definition mark_own :: "store \<Rightarrow> ComMatrix \<Rightarrow> ComDetails \<Rightarrow> (string \<rightharpoonup> int) \<Rightarrow> (string \<rightharpoonup> int)" where
  "mark_own st other cd mp =
     (if Contains st other cd then mp(String_ComDetails cd \<mapsto> 0)
      else mp(String_ComDetails cd \<mapsto> 1))"

definition mark_other :: "store \<Rightarrow> ComMatrix \<Rightarrow> ComDetails \<Rightarrow> (string \<rightharpoonup> int) \<Rightarrow> (string \<rightharpoonup> int)" where
  "mark_other st m cd mp =
     (if Service cd = ''rpc.statd'' then mp
      else if \<not> Contains st m cd then mp(String_ComDetails cd \<mapsto> - 1)
      else mp)"

definition markDiffBetweenMatrices :: "store \<Rightarrow> ComMatrix \<Rightarrow> ComMatrix \<Rightarrow> (string \<rightharpoonup> int)" where
  "markDiffBetweenMatrices st m other =
     fold (mark_other st m) (elems st (Matrix other))
       (fold (mark_own st other) (elems st (Matrix m)) Map.empty)"

text \<open>The struct tags of \<^verbatim>\<open>ComDetails\<close>, in declaration order, as reflection sees them.\<close>

definition ComDetails_tags :: "(string \<times> (string \<times> string) list) list" where
  "ComDetails_tags =
     [(''Direction'', [(''json'', ''direction''), (''yaml'', ''direction''), (''csv'', ''Direction'')]),
      (''Protocol'', [(''json'', ''protocol''), (''yaml'', ''protocol''), (''csv'', ''Protocol'')]),
      (''Port'', [(''json'', ''port''), (''yaml'', ''port''), (''csv'', ''Port'')]),
      (''Namespace'', [(''json'', ''namespace''), (''yaml'', ''namespace''), (''csv'', ''Namespace'')]),
      (''Service'', [(''json'', ''service''), (''yaml'', ''service''), (''csv'', ''Service'')]),
      (''Pod'', [(''json'', ''pod''), (''yaml'', ''pod''), (''csv'', ''Pod'')]),
      (''Container'', [(''json'', ''container''), (''yaml'', ''container''), (''csv'', ''Container'')]),
      (''NodeRole'', [(''json'', ''nodeRole''), (''yaml'', ''nodeRole''), (''csv'', ''Node Role'')]),
      (''Optional'', [(''json'', ''optional''), (''yaml'', ''optional''), (''csv'', ''Optional'')])]"

definition Tag_Get :: "(string \<times> string) list \<Rightarrow> string \<Rightarrow> string" where
  "Tag_Get tags k = (case map_of tags k of None \<Rightarrow> [] | Some v \<Rightarrow> v)"

fun strings_Join :: "string list \<Rightarrow> string \<Rightarrow> string" where
  "strings_Join [] sep = []"
| "strings_Join [x] sep = x"
| "strings_Join (x # y # ys) sep = x @ sep @ strings_Join (y # ys) sep"

fun headers_loop ::
  "extern \<Rightarrow> (string \<times> (string \<times> string) list) list \<Rightarrow> string \<Rightarrow> string list \<Rightarrow> error + string" where
  "headers_loop E [] format tagsList = Inr (strings_Join tagsList '','')"
| "headers_loop E (field # rest) format tagsList =
     (let tag = Tag_Get (snd field) format in
      if tag = []
      then Inl (Errorf (''field '' @ fmt_StructField E (fst field) @ '' has no tag of format '' @ format))
      else headers_loop E rest format (tagsList @ [tag]))"

definition getComMatrixHeadersByFormat :: "extern \<Rightarrow> string \<Rightarrow> error + string" where
  "getComMatrixHeadersByFormat E format = headers_loop E ComDetails_tags format []"

definition FormatJSON :: string where "FormatJSON = ''json''"
definition FormatYAML :: string where "FormatYAML = ''yaml''"
definition FormatCSV :: string where "FormatCSV = ''csv''"
definition FormatNFT :: string where "FormatNFT = ''nft''"

definition NL :: string where "NL = [CHR 0x0A]"
definition TAB :: string where "TAB = [CHR 0x09]"
definition QUOTE :: string where "QUOTE = [CHR 0x22]"

definition error_text :: "error \<Rightarrow> string" where
  "error_text e = (case e of Errorf msg \<Rightarrow> msg)"

text \<open>One round of the report loop: the \<^verbatim>\<open>switch\<close> on the sign has no default case.\<close>

definition diff_entry :: "(string \<rightharpoonup> int) \<Rightarrow> ComDetails \<Rightarrow> string \<Rightarrow> string" where
  "diff_entry mapComDetailToSign cd diff =
     (let sign = map_get mapComDetailToSign (String_ComDetails cd) in
      if sign = 1 then diff @ ''+ '' @ String_ComDetails cd @ NL
      else if sign = - 1 then diff @ ''- '' @ String_ComDetails cd @ NL
      else if sign = 0 then diff @ String_ComDetails cd @ NL
      else diff)"

definition GenerateMatrixDiff ::
  "extern \<Rightarrow> store \<Rightarrow> ComMatrix \<Rightarrow> ComMatrix \<Rightarrow> (error + string) \<times> store" where
  "GenerateMatrixDiff E st m other =
     (case combine E st m other of (combinedComMatrix, st1) \<Rightarrow>
        let mapComDetailToSign = markDiffBetweenMatrices st1 m other in
        (case getComMatrixHeadersByFormat E FormatCSV of
           Inl err \<Rightarrow> (Inl (Errorf (''error getting commatrix CSV tags: '' @ error_text err)), st1)
         | Inr colNames \<Rightarrow>
             (Inr (fold (diff_entry mapComDetailToSign) (elems st1 (Matrix combinedComMatrix))
                    (colNames @ NL)), st1)))"

definition deleteDuplicates_step ::
  "extern \<Rightarrow> ComDetails \<Rightarrow> (string \<rightharpoonup> bool) \<times> slice \<times> store \<Rightarrow> (string \<rightharpoonup> bool) \<times> slice \<times> store" where
  "deleteDuplicates_step E item acc =
     (case acc of (allKeys, res, st) \<Rightarrow>
        let str = key_string item in
        if allKeys str = None
        then (case append_go E st res item of (res', st') \<Rightarrow> (allKeys(str \<mapsto> True), res', st'))
        else (allKeys, res, st))"

definition deleteDuplicates :: "extern \<Rightarrow> store \<Rightarrow> ComMatrix \<Rightarrow> ComMatrix \<times> store" where
  "deleteDuplicates E st m =
     (case empty_slice st of (res0, st0) \<Rightarrow>
        (case fold (deleteDuplicates_step E) (elems st (Matrix m)) (Map.empty, res0, st0) of
           (allKeys, res, st') \<Rightarrow> (m\<lparr>Matrix := res\<rparr>, st')))"

definition CleanComDetails :: "extern \<Rightarrow> store \<Rightarrow> ComMatrix \<Rightarrow> ComMatrix \<times> store" where
  "CleanComDetails E st m =
     (case deleteDuplicates E st m of (m', st') \<Rightarrow> (m', sort_matrix E st' m'))"

subsection \<open>Exporters\<close>

definition nft_step :: "ComDetails \<Rightarrow> string list \<times> string list \<Rightarrow> string list \<times> string list" where
  "nft_step line acc =
     (case acc of (tcpPorts, udpPorts) \<Rightarrow>
        if Protocol line = ''TCP'' then (tcpPorts @ [fmt_d (Port line)], udpPorts)
        else if Protocol line = ''UDP'' then (tcpPorts, udpPorts @ [fmt_d (Port line)])
        else (tcpPorts, udpPorts))"

definition nft_text :: "string \<Rightarrow> string \<Rightarrow> string" where
  "nft_text tcpPortsStr udpPortsStr =
     ''#!/usr/sbin/nft -f'' @ NL @
     NL @
     TAB @ ''table inet openshift_filter {'' @ NL @
     TAB @ TAB @ ''chain OPENSHIFT {'' @ NL @
     TAB @ TAB @ TAB @ ''type filter hook input priority 1; policy accept;'' @ NL @
     NL @
     TAB @ TAB @ TAB @ ''# Allow loopback traffic'' @ NL @
     TAB @ TAB @ TAB @ ''iif lo accept'' @ NL @
     TAB @ NL @
     TAB @ TAB @ TAB @ ''# Allow established and related traffic'' @ NL @
     TAB @ TAB @ TAB @ ''ct state established,related accept'' @ NL @
     TAB @ NL @
     TAB @ TAB @ TAB @ ''# Allow ICMP on ipv4'' @ NL @
     TAB @ TAB @ TAB @ ''ip protocol icmp accept'' @ NL @
     TAB @ TAB @ TAB @ ''# Allow ICMP on ipv6'' @ NL @
     TAB @ TAB @ TAB @ ''ip6 nexthdr ipv6-icmp accept'' @ NL @
     NL @
     TAB @ TAB @ TAB @ ''# Allow specific TCP and UDP ports'' @ NL @
     TAB @ TAB @ TAB @ ''tcp dport  { '' @ tcpPortsStr @ '' } accept'' @ NL @
     TAB @ TAB @ TAB @ ''udp dport { '' @ udpPortsStr @ '' } accept'' @ NL @
     NL @
     TAB @ TAB @ TAB @ ''# Logging and default drop'' @ NL @
     TAB @ TAB @ TAB @ ''log prefix '' @ QUOTE @ ''firewall '' @ QUOTE @ '' drop'' @ NL @
     TAB @ TAB @ ''}'' @ NL @
     TAB @ ''}''"

definition ToNFTables :: "store \<Rightarrow> ComMatrix \<Rightarrow> error + string" where
  "ToNFTables st m =
     (case fold nft_step (elems st (Matrix m)) ([], []) of
        (tcpPorts, udpPorts) \<Rightarrow>
          let tcpPortsStr = strings_Join tcpPorts '', '';
              udpPortsStr = strings_Join udpPorts '', ''
          in Inr (nft_text tcpPortsStr udpPortsStr))"

definition ToJSON :: "extern \<Rightarrow> store \<Rightarrow> ComMatrix \<Rightarrow> error + string" where
  "ToJSON E st m =
     (case json_MarshalIndent E (elems st (Matrix m)) of Inl err \<Rightarrow> Inl err | Inr out \<Rightarrow> Inr out)"

definition ToCSV :: "extern \<Rightarrow> store \<Rightarrow> ComMatrix \<Rightarrow> error + string" where
  "ToCSV E st m =
     (case gocsv_MarshalCSV E (elems st (Matrix m)) of Inl err \<Rightarrow> Inl err | Inr out \<Rightarrow> Inr out)"

definition ToYAML :: "extern \<Rightarrow> store \<Rightarrow> ComMatrix \<Rightarrow> error + string" where
  "ToYAML E st m =
     (case yaml_Marshal E (elems st (Matrix m)) of Inl err \<Rightarrow> Inl err | Inr out \<Rightarrow> Inr out)"

definition print :: "extern \<Rightarrow> store \<Rightarrow> ComMatrix \<Rightarrow> string \<Rightarrow> error + string" where
  "print E st m format =
     (if format = FormatJSON then ToJSON E st m
      else if format = FormatCSV then ToCSV E st m
      else if format = FormatYAML then ToYAML E st m
      else if format = FormatNFT then ToNFTables st m
      else Inl (Errorf (''invalid format: '' @ format @
                        ''. Please specify json, csv, yaml, or nft'')))"

section \<open>Notions of the specification and of the proofs\<close>

text \<open>
  The specification sorts by (nodeRole, protocol, port) and identifies a flow by
  (nodeRole, port, protocol). Both are written here as the specification words them; the
  orders are the lexicographic order of \<^typ>\<open>string\<close> and the order of \<^typ>\<open>int\<close>.
\<close>

definition spec_sort_key :: "ComDetails \<Rightarrow> string \<times> string \<times> int" where
  "spec_sort_key cd = (NodeRole cd, Protocol cd, Port cd)"

definition spec_identity :: "ComDetails \<Rightarrow> string \<times> int \<times> string" where
  "spec_identity cd = (NodeRole cd, Port cd, Protocol cd)"

definition wf_slice :: "store \<Rightarrow> slice \<Rightarrow> bool" where
  "wf_slice st s = (base s < length st \<and> len s \<le> length (st ! base s))"

definition combine_inv ::
  "store \<Rightarrow> slice \<Rightarrow> slice \<Rightarrow> ComDetails list \<Rightarrow> slice \<times> store \<Rightarrow> bool" where
  "combine_inv st ms os app acc =
     (case acc of (c, st') \<Rightarrow>
        length st \<le> length st' \<and> (base c = base ms \<or> length st \<le> base c) \<and>
        wf_slice st' c \<and> elems st' c = elems st ms @ app \<and>
        wf_slice st' ms \<and> elems st' ms = elems st ms \<and>
        wf_slice st' os \<and> elems st' os = elems st os \<and>
        (app = [] \<longrightarrow> c = ms \<and> st' = st) \<and>
        (cap st ms = len ms \<longrightarrow> app \<noteq> [] \<longrightarrow> length st \<le> base c))"

definition appended :: "ComDetails list \<Rightarrow> ComDetails list \<Rightarrow> ComDetails list" where
  "appended A B = filter (\<lambda>cd. \<not> Contains_loop A cd) B"

definition undigits :: "string \<Rightarrow> nat" where
  "undigits s = foldl (\<lambda>a c. 10 * a + (of_char c - 48)) 0 s"

definition plain_key :: "ComDetails \<Rightarrow> bool" where
  "plain_key cd = (0 \<le> Port cd \<and> CHR ''-'' \<notin> set (Protocol cd))"

definition plain_fields :: "ComDetails \<Rightarrow> bool" where
  "plain_fields cd =
     (CHR '','' \<notin> set (Direction cd) \<and> CHR '','' \<notin> set (Protocol cd) \<and>
      CHR '','' \<notin> set (Namespace cd) \<and> CHR '','' \<notin> set (Service cd) \<and>
      CHR '','' \<notin> set (Pod cd) \<and> CHR '','' \<notin> set (Container cd) \<and>
      CHR '','' \<notin> set (NodeRole cd))"

text \<open>Reading the matrix a method hands back, in the store it hands back.\<close>

definition matrix_elems :: "ComMatrix \<times> store \<Rightarrow> ComDetails list" where
  "matrix_elems r = elems (snd r) (Matrix (fst r))"

text \<open>Two records that differ in node role, port and protocol, and whose formatted keys
  are both \<^verbatim>\<open>worker-1-80-TCP\<close>.\<close>

definition collide_a :: ComDetails where
  "collide_a = \<lparr>Direction = ''Ingress'', Protocol = ''TCP'', Port = 80, Namespace = [],
     Service = ''a'', Pod = [], Container = [], NodeRole = ''worker-1'', Optional = False\<rparr>"

definition collide_b :: ComDetails where
  "collide_b = \<lparr>Direction = ''Ingress'', Protocol = ''80-TCP'', Port = 1, Namespace = [],
     Service = ''b'', Pod = [], Container = [], NodeRole = ''worker'', Optional = False\<rparr>"

subsection \<open>Concrete records and stores\<close>

definition flow :: "string \<Rightarrow> string \<Rightarrow> int \<Rightarrow> string \<Rightarrow> ComDetails" where
  "flow role proto port svc = \<lparr>Direction = ''Ingress'', Protocol = proto, Port = port,
     Namespace = [], Service = svc, Pod = [], Container = [], NodeRole = role, Optional = False\<rparr>"

definition nft_store :: store where
  "nft_store = [[flow ''master'' ''TCP'' 80 ''http'', flow ''master'' ''UDP'' 53 ''dns'']]"

definition case_store :: store where
  "case_store = [[flow ''master'' ''TCP'' 22 ''ssh'', flow ''master'' ''tcp'' 80 ''http'',
                  flow ''worker'' ''UDP'' 53 ''dns'', flow ''worker'' ''SCTP'' 9 ''x'',
                  flow ''worker'' ''TCP'' 443 ''https'']]"

definition tie_store :: store where
  "tie_store = [[flow ''master'' ''TCP'' 50 ''first'', flow ''master'' ''TCP'' 10 ''a'',
                 flow ''master'' ''TCP'' 20 ''b'', flow ''master'' ''TCP'' 30 ''c'',
                 flow ''master'' ''TCP'' 40 ''d'', flow ''master'' ''TCP'' 45 ''e'',
                 flow ''master'' ''TCP'' 50 ''second'', flow ''master'' ''TCP'' 60 ''f'',
                 flow ''master'' ''TCP'' 70 ''g'', flow ''master'' ''TCP'' 80 ''h'',
                 flow ''master'' ''TCP'' 90 ''i'', flow ''master'' ''TCP'' 95 ''j'',
                 flow ''master'' ''TCP'' 5 ''k'']]"

definition sort_store :: store where
  "sort_store = [[flow ''worker'' ''TCP'' 22 ''a'', flow ''master'' ''UDP'' 53 ''b'',
                  flow ''master'' ''TCP'' 6443 ''c'', flow ''master'' ''TCP'' 22 ''d'']]"

text \<open>The records that are first with their key, for keys not seen before: what the loop
  of \<^verbatim>\<open>deleteDuplicates\<close> keeps.\<close>

fun first_per_key :: "('a \<Rightarrow> 'k) \<Rightarrow> 'k set \<Rightarrow> 'a list \<Rightarrow> 'a list" where
  "first_per_key f seen [] = []"
| "first_per_key f seen (x # xs) =
     (if f x \<in> seen then first_per_key f seen xs
      else x # first_per_key f (insert (f x) seen) xs)"

definition dup_store :: store where
  "dup_store = [[flow ''worker'' ''TCP'' 22 ''a'', flow ''master'' ''UDP'' 53 ''b'',
                 flow ''worker'' ''TCP'' 22 ''c'', flow ''master'' ''TCP'' 22 ''d'',
                 flow ''master'' ''UDP'' 53 ''e'']]"

definition twin_store :: store where
  "twin_store = [[], [flow ''master'' ''TCP'' 22 ''first'', flow ''master'' ''TCP'' 22 ''second'']]"

definition scenario_store :: store where
  "scenario_store = [[flow ''master'' ''TCP'' 22 ''sshd'', flow ''master'' ''TCP'' 64 ''api''],
                     [flow ''master'' ''TCP'' 22 ''ssh'', flow ''master'' ''TCP'' 99 ''extra'',
                      flow ''master'' ''TCP'' 53 ''http'']]"

text \<open>The mark the specification gives a record of the combined matrix: \<^verbatim>\<open>+\<close> when its
  identity is in the first matrix only, \<^verbatim>\<open>-\<close> when it is in the second only, none when it is in
  both; a record of service \<^verbatim>\<open>rpc.statd\<close> that is in the second only has none.\<close>

definition spec_mark :: "ComDetails list \<Rightarrow> ComDetails list \<Rightarrow> ComDetails \<Rightarrow> string" where
  "spec_mark A B cd =
     (if spec_identity cd \<in> spec_identity ` set A
      then (if spec_identity cd \<in> spec_identity ` set B then [] else ''+ '')
      else (if Service cd = ''rpc.statd'' then [] else ''- ''))"

definition csv_header :: string where
  "csv_header = ''Direction,Protocol,Port,Namespace,Service,Pod,Container,Node Role,Optional''"

definition diff_store :: store where
  "diff_store = [[flow ''master'' ''TCP'' 22 ''sshd'', flow ''master'' ''TCP'' 64 ''api''],
                 [flow ''master'' ''TCP'' 22 ''ssh'', flow ''master'' ''TCP'' 99 ''extra'',
                  flow ''master'' ''UDP'' 53 ''rpc.statd'']]"

definition statd_store :: store where
  "statd_store = [[], [flow ''master'' ''UDP'' 53 ''rpc.statd'']]"

definition comma_store :: store where
  "comma_store = [[], [(flow ''master'' ''UDP'' 53 ''rpc.statd,a'')\<lparr>Pod := ''b''\<rparr>,
                       (flow ''master'' ''UDP'' 53 ''rpc.statd'')\<lparr>Pod := ''a,b''\<rparr>]]"

definition spare_store :: store where
  "spare_store = [[flow ''master'' ''TCP'' 22 ''sshd'', flow ''master'' ''TCP'' 64 ''api'', zero_ComDetails],
                  [flow ''master'' ''TCP'' 22 ''ssh'', flow ''master'' ''TCP'' 53 ''http'']]"

text \<open>The fixed text of the template before and after the two port lines.\<close>

definition nft_head :: string where
  "nft_head =
     ''#!/usr/sbin/nft -f'' @ NL @
     NL @
     TAB @ ''table inet openshift_filter {'' @ NL @
     TAB @ TAB @ ''chain OPENSHIFT {'' @ NL @
     TAB @ TAB @ TAB @ ''type filter hook input priority 1; policy accept;'' @ NL @
     NL @
     TAB @ TAB @ TAB @ ''# Allow loopback traffic'' @ NL @
     TAB @ TAB @ TAB @ ''iif lo accept'' @ NL @
     TAB @ NL @
     TAB @ TAB @ TAB @ ''# Allow established and related traffic'' @ NL @
     TAB @ TAB @ TAB @ ''ct state established,related accept'' @ NL @
     TAB @ NL @
     TAB @ TAB @ TAB @ ''# Allow ICMP on ipv4'' @ NL @
     TAB @ TAB @ TAB @ ''ip protocol icmp accept'' @ NL @
     TAB @ TAB @ TAB @ ''# Allow ICMP on ipv6'' @ NL @
     TAB @ TAB @ TAB @ ''ip6 nexthdr ipv6-icmp accept'' @ NL @
     NL @
     TAB @ TAB @ TAB @ ''# Allow specific TCP and UDP ports'' @ NL"

definition nft_tail :: string where
  "nft_tail =
     NL @
     TAB @ TAB @ TAB @ ''# Logging and default drop'' @ NL @
     TAB @ TAB @ TAB @ ''log prefix '' @ QUOTE @ ''firewall '' @ QUOTE @ '' drop'' @ NL @
     TAB @ TAB @ ''}'' @ NL @
     TAB @ ''}''"

text \<open>A matrix of three records as \<^verbatim>\<open>CleanComDetails\<close> leaves it, and a second matrix.\<close>

definition clean_store :: store where
  "clean_store = [[flow ''master'' ''TCP'' 64 ''api'', flow ''master'' ''TCP'' 22 ''sshd'',
                   flow ''master'' ''TCP'' 99 ''extra''],
                  [flow ''master'' ''TCP'' 22 ''ssh'', flow ''master'' ''TCP'' 53 ''dns'']]"

definition cleaned :: "ComMatrix \<times> store" where
  "cleaned = CleanComDetails std_extern clean_store (matrix_at 0 clean_store)"

definition collide_store :: store where
  "collide_store = [[collide_a], [collide_b]]"

section \<open>Properties\<close>

lemma Contains_loop_iff: "Contains_loop xs cd \<longleftrightarrow> (\<exists>x\<in>set xs. Equals x cd)"
  by (induction xs) auto

lemma cmp_Compare_neg: "cmp_Compare x y < 0 \<longleftrightarrow> x < y"
  by (simp add: cmp_Compare_def)

lemma cmp_Compare_zero: "cmp_Compare x y = 0 \<longleftrightarrow> x = y"
  by (auto simp: cmp_Compare_def)

lemma sort_cmp_neg: "sort_cmp a b < 0 \<longleftrightarrow> spec_sort_key a < spec_sort_key b"
  by (auto simp: sort_cmp_def spec_sort_key_def Let_def cmp_Compare_def)

lemma sort_cmp_le: "sort_cmp a b \<le> 0 \<longleftrightarrow> spec_sort_key a \<le> spec_sort_key b"
  by (auto simp: sort_cmp_def spec_sort_key_def Let_def cmp_Compare_def)

lemma sort_cmp_zero: "sort_cmp a b = 0 \<longleftrightarrow> spec_sort_key a = spec_sort_key b"
  by (auto simp: sort_cmp_def spec_sort_key_def Let_def cmp_Compare_def)

lemma set_insert_left: "set (insert_left cmp x ys) = insert x (set ys)"
  by (induction ys) auto

lemma mset_insert_left: "mset (insert_left cmp x ys) = add_mset x (mset ys)"
  by (induction ys) auto

lemma sorted_insert_left:
  "sorted_wrt (\<lambda>a b. spec_sort_key b \<le> spec_sort_key a) ys \<Longrightarrow>
   sorted_wrt (\<lambda>a b. spec_sort_key b \<le> spec_sort_key a) (insert_left sort_cmp x ys)"
  by (induction ys) (auto simp: set_insert_left sort_cmp_neg)

lemma mset_fold_insert_left: "mset (fold (insert_left cmp) xs acc) = mset xs + mset acc"
  by (induction xs arbitrary: acc) (auto simp: mset_insert_left)

lemma sorted_fold_insert_left:
  "sorted_wrt (\<lambda>a b. spec_sort_key b \<le> spec_sort_key a) acc \<Longrightarrow>
   sorted_wrt (\<lambda>a b. spec_sort_key b \<le> spec_sort_key a) (fold (insert_left sort_cmp) xs acc)"
  by (induction xs arbitrary: acc) (auto simp: sorted_insert_left)

lemma mset_insertionSort: "mset (insertionSortCmpFunc cmp xs) = mset xs"
  by (simp add: insertionSortCmpFunc_def mset_fold_insert_left)

lemma sorted_insertionSort:
  "sorted_wrt (\<lambda>a b. sort_cmp a b \<le> 0) (insertionSortCmpFunc sort_cmp xs)"
proof -
  have "sorted_wrt (\<lambda>a b. spec_sort_key b \<le> spec_sort_key a) (fold (insert_left sort_cmp) xs [])"
    by (rule sorted_fold_insert_left) simp
  then show ?thesis
    by (simp add: insertionSortCmpFunc_def sorted_wrt_rev sort_cmp_le)
qed

lemma SortFunc_spec_std: "SortFunc_spec std_extern"
  by (simp add: SortFunc_spec_def std_extern_def mset_insertionSort sorted_insertionSort)

lemma SortFunc_mset: "SortFunc_spec E \<Longrightarrow> mset (slices_SortFunc E sort_cmp xs) = mset xs"
  by (simp add: SortFunc_spec_def)

lemma SortFunc_set: "SortFunc_spec E \<Longrightarrow> set (slices_SortFunc E sort_cmp xs) = set xs"
  by (metis SortFunc_mset set_mset_mset)

lemma SortFunc_length: "SortFunc_spec E \<Longrightarrow> length (slices_SortFunc E sort_cmp xs) = length xs"
  by (metis SortFunc_mset size_mset)

lemma SortFunc_sorted: "SortFunc_spec E \<Longrightarrow> sorted (map spec_sort_key (slices_SortFunc E sort_cmp xs))"
  by (simp add: SortFunc_spec_def sorted_map sort_cmp_le)

lemma filter_key_singleton:
  "distinct (map f xs) \<Longrightarrow> x \<in> set xs \<Longrightarrow> filter (\<lambda>y. f x = f y) xs = [x]"
proof (induction xs)
  case Nil
  then show ?case by simp
next
  case (Cons a xs)
  show ?case
  proof (cases "x = a")
    case True
    have "filter (\<lambda>y. f a = f y) xs = []"
      using Cons.prems(1) by (auto simp: filter_empty_conv)
    with True show ?thesis by simp
  next
    case False
    with Cons.prems have "x \<in> set xs" by simp
    moreover have "f a \<notin> f ` set xs" using Cons.prems(1) by simp
    with \<open>x \<in> set xs\<close> have "f x \<noteq> f a" by (metis imageI)
    ultimately show ?thesis using Cons by simp
  qed
qed

lemma sorted_distinct_unique:
  assumes "mset ys = mset xs" and "sorted (map f ys)" and "distinct (map f xs)"
  shows "ys = sort_key f xs"
proof -
  have "mset (map f ys) = mset (map f xs)"
    using assms(1) by (metis mset_map)
  then have dy: "distinct (map f ys)"
    using assms(3) by (metis mset_eq_imp_distinct_iff)
  have sets: "set ys = set xs"
    using assms(1) by (metis set_mset_mset)
  have "sort_key f xs = ys"
  proof (rule properties_for_sort_key)
    show "mset ys = mset xs" by (rule assms(1))
    show "sorted (map f ys)" by (rule assms(2))
    fix k assume "k \<in> set ys"
    then show "filter (\<lambda>x. f k = f x) ys = filter (\<lambda>x. f k = f x) xs"
      using filter_key_singleton [OF dy] filter_key_singleton [OF assms(3)] sets by simp
  qed
  then show ?thesis by simp
qed

lemma wf_backing: "wf_slice st s \<Longrightarrow> backing st s = st ! base s"
  by (simp add: wf_slice_def backing_def)

lemma wf_length_elems: "wf_slice st s \<Longrightarrow> length (elems st s) = len s"
  by (simp add: wf_slice_def elems_def backing_def)

lemma append_go_elems:
  assumes "wf_slice st s" and "append_go E st s x = (s', st')"
  shows "elems st' s' = elems st s @ [x]" and "wf_slice st' s'" and "len s' = len s + 1"
    and "length st \<le> length st'" and "base s' = base s \<or> base s' = length st"
proof -
  have b: "base s < length st" and l: "len s \<le> length (st ! base s)"
    using assms(1) by (simp_all add: wf_slice_def)
  show "elems st' s' = elems st s @ [x]"
    using assms(2) b l
    by (auto simp: append_go_def cap_def backing_def elems_def Let_def take_Suc_conv_app_nth
        split: if_splits)
  show "wf_slice st' s'"
    using assms(2) b l
    by (auto simp: append_go_def cap_def backing_def elems_def Let_def wf_slice_def nth_append
        split: if_splits)
  show "len s' = len s + 1"
    using assms(2) by (auto simp: append_go_def Let_def split: if_splits)
  show "length st \<le> length st'"
    using assms(2) by (auto simp: append_go_def Let_def split: if_splits)
  show "base s' = base s \<or> base s' = length st"
    using assms(2) by (auto simp: append_go_def Let_def split: if_splits)
qed

text \<open>What an append leaves alone: any slice on another array, and any slice on the same
  array that ends no later than the one appended to.\<close>

lemma append_go_frame:
  assumes "wf_slice st s" and "append_go E st s x = (s', st')" and "wf_slice st t"
    and "base t \<noteq> base s \<or> len t \<le> len s"
  shows "elems st' t = elems st t" and "wf_slice st' t"
proof -
  have bt: "base t < length st" and lt: "len t \<le> length (st ! base t)"
    using assms(3) by (simp_all add: wf_slice_def)
  show "elems st' t = elems st t"
    using assms(2,4) bt lt
    by (auto simp: append_go_def cap_def backing_def elems_def Let_def nth_append nth_list_update
        split: if_splits)
  show "wf_slice st' t"
    using assms(2,4) bt lt
    by (auto simp: append_go_def cap_def backing_def elems_def Let_def nth_append nth_list_update
        wf_slice_def split: if_splits)
qed

lemma sort_in_place_elems:
  assumes "SortFunc_spec E"
  shows "elems (SortFunc_in_place E sort_cmp st s) s = slices_SortFunc E sort_cmp (elems st s)"
proof (cases "base s < length st")
  case True
  have "length (slices_SortFunc E sort_cmp (elems st s)) = length (elems st s)"
    by (rule SortFunc_length [OF assms])
  with True show ?thesis
    by (auto simp: SortFunc_in_place_def elems_def backing_def)
next
  case False
  then have "elems st s = []" by (simp add: elems_def backing_def)
  moreover have "slices_SortFunc E sort_cmp [] = []"
    using SortFunc_length [OF assms, of "[]"] by simp
  ultimately show ?thesis using False
    by (simp add: SortFunc_in_place_def elems_def backing_def)
qed

lemma sort_in_place_frame:
  "base t \<noteq> base s \<Longrightarrow> elems (SortFunc_in_place E cmp st s) t = elems st t"
  by (simp add: SortFunc_in_place_def elems_def backing_def)

lemma sort_in_place_prefix:
  assumes "SortFunc_spec E" and "base t = base s" and "len t \<le> len s" and "wf_slice st s"
  shows "elems (SortFunc_in_place E sort_cmp st s) t = take (len t) (slices_SortFunc E sort_cmp (elems st s))"
proof -
  have "length (slices_SortFunc E sort_cmp (elems st s)) = len s"
    using SortFunc_length [OF assms(1)] wf_length_elems [OF assms(4)] by simp
  then show ?thesis
    using assms(2,3,4)
    by (simp add: SortFunc_in_place_def elems_def backing_def wf_slice_def)
qed

lemma combine_inv_init:
  "wf_slice st ms \<Longrightarrow> wf_slice st os \<Longrightarrow> combine_inv st ms os [] (ms, st)"
  by (simp add: combine_inv_def)

lemma combine_step_inv:
  assumes inv: "combine_inv st (Matrix m) os app acc"
    and wm: "wf_slice st (Matrix m)" and wo: "wf_slice st os" and ne: "base (Matrix m) \<noteq> base os"
  shows "combine_inv st (Matrix m) os
           (app @ (if Contains_loop (elems st (Matrix m)) cd then [] else [cd]))
           (combine_step E m cd acc)"
proof -
  obtain c st' where acc: "acc = (c, st')" by (cases acc)
  note I = inv [unfolded acc combine_inv_def, simplified]
  have cont: "Contains st' m cd = Contains_loop (elems st (Matrix m)) cd"
    using I by (simp add: Contains_def)
  show ?thesis
  proof (cases "Contains_loop (elems st (Matrix m)) cd")
    case True
    then show ?thesis using inv cont by (simp add: combine_step_def acc)
  next
    case False
    obtain c' st'' where ap: "append_go E st' c cd = (c', st'')" by (cases "append_go E st' c cd")
    have wc: "wf_slice st' c" using I by simp
    note A = append_go_elems [OF wc ap]
    have lenc: "len (Matrix m) \<le> len c"
      using wf_length_elems [OF wc] wf_length_elems [OF wm] I by simp
    have bo: "base os \<noteq> base c"
      using I ne wo by (auto simp: wf_slice_def)
    have fm: "elems st'' (Matrix m) = elems st' (Matrix m)" "wf_slice st'' (Matrix m)"
      using append_go_frame [OF wc ap, of "Matrix m"] I lenc by simp_all
    have fo: "elems st'' os = elems st' os" "wf_slice st'' os"
      using append_go_frame [OF wc ap, of os] I bo by simp_all
    have fresh: "cap st (Matrix m) = len (Matrix m) \<Longrightarrow> length st \<le> base c'"
    proof (cases "app = []")
      case True
      assume "cap st (Matrix m) = len (Matrix m)"
      with True I ap show ?thesis
        by (auto simp: append_go_def Let_def)
    next
      case False
      assume "cap st (Matrix m) = len (Matrix m)"
      with False I have "length st \<le> base c" by simp
      with A(5) I show ?thesis by auto
    qed
    have "combine_inv st (Matrix m) os (app @ [cd]) (c', st'')"
      unfolding combine_inv_def
      using A I fm fo fresh by auto
    with False cont ap show ?thesis by (simp add: combine_step_def acc)
  qed
qed

lemma combine_fold_inv:
  assumes wm: "wf_slice st (Matrix m)" and wo: "wf_slice st os" and ne: "base (Matrix m) \<noteq> base os"
  shows "combine_inv st (Matrix m) os app acc \<Longrightarrow>
         combine_inv st (Matrix m) os
           (app @ filter (\<lambda>cd. \<not> Contains_loop (elems st (Matrix m)) cd) bs)
           (fold (combine_step E m) bs acc)"
proof (induction bs arbitrary: app acc)
  case Nil
  then show ?case by simp
next
  case (Cons b bs)
  from combine_step_inv [OF Cons.prems wm wo ne, of b E]
  have "combine_inv st (Matrix m) os
          (app @ (if Contains_loop (elems st (Matrix m)) b then [] else [b]))
          (combine_step E m b acc)" .
  from Cons.IH [OF this] show ?case by (cases "Contains_loop (elems st (Matrix m)) b") simp_all
qed

lemma combine_effect:
  assumes spec: "SortFunc_spec E"
    and wm: "wf_slice st (Matrix m)" and wo: "wf_slice st (Matrix other)"
    and ne: "base (Matrix m) \<noteq> base (Matrix other)"
    and run: "combine E st m other = (cm, st2)"
  shows "elems st2 (Matrix cm) =
           slices_SortFunc E sort_cmp
             (elems st (Matrix m) @ appended (elems st (Matrix m)) (elems st (Matrix other)))"
    and "elems st2 (Matrix other) = elems st (Matrix other)"
    and "set (elems st2 (Matrix m)) \<subseteq> set (elems st2 (Matrix cm))"
    and "cap st (Matrix m) = len (Matrix m) \<Longrightarrow> set (elems st2 (Matrix m)) = set (elems st (Matrix m))"
proof -
  let ?A = "elems st (Matrix m)" and ?B = "elems st (Matrix other)"
  obtain c st1 where f: "fold (combine_step E m) ?B (Matrix m, st) = (c, st1)"
    by (cases "fold (combine_step E m) ?B (Matrix m, st)")
  have "combine_inv st (Matrix m) (Matrix other) ([] @ appended ?A ?B) (fold (combine_step E m) ?B (Matrix m, st))"
    unfolding appended_def
    by (rule combine_fold_inv [OF wm wo ne combine_inv_init [OF wm wo]])
  note I = this [unfolded f combine_inv_def, simplified]
  have cm: "Matrix cm = c" and st2: "st2 = SortFunc_in_place E sort_cmp st1 c"
    using run f by (auto simp: combine_def sort_matrix_def Let_def)
  have U: "elems st2 c = slices_SortFunc E sort_cmp (?A @ appended ?A ?B)"
    using sort_in_place_elems [OF spec, of st1 c] I st2 by simp
  show "elems st2 (Matrix cm) = slices_SortFunc E sort_cmp (?A @ appended ?A ?B)"
    using U cm by simp
  have bo: "base (Matrix other) \<noteq> base c"
    using I ne wo by (auto simp: wf_slice_def)
  show "elems st2 (Matrix other) = ?B"
    using sort_in_place_frame [OF bo] I st2 by simp
  have lenc: "len (Matrix m) \<le> len c"
    using wf_length_elems [of st1 c] wf_length_elems [OF wm] I by simp
  show "set (elems st2 (Matrix m)) \<subseteq> set (elems st2 (Matrix cm))"
  proof (cases "base (Matrix m) = base c")
    case True
    have "elems st2 (Matrix m) = take (len (Matrix m)) (slices_SortFunc E sort_cmp (elems st1 c))"
      unfolding st2 using sort_in_place_prefix [OF spec True lenc] I by simp
    then show ?thesis using U cm I by (simp add: set_take_subset)
  next
    case False
    then have "elems st2 (Matrix m) = ?A"
      using sort_in_place_frame [of "Matrix m" c] I st2 by simp
    then show ?thesis using U cm SortFunc_set [OF spec] by auto
  qed
  show "set (elems st2 (Matrix m)) = set ?A" if nospare: "cap st (Matrix m) = len (Matrix m)"
  proof (cases "appended ?A ?B = []")
    case True
    with I have "c = Matrix m" by simp
    then show ?thesis using U True SortFunc_set [OF spec] by simp
  next
    case False
    with I nospare have "length st \<le> base c" by simp
    with wm have "base (Matrix m) \<noteq> base c" by (auto simp: wf_slice_def)
    then show ?thesis
      using sort_in_place_frame [of "Matrix m" c] I st2 by simp
  qed
qed

declare digits.simps [simp del]

lemma of_char_digit: "d < 10 \<Longrightarrow> of_char (digit_char d) = (48 + d :: nat)"
  by (simp add: digit_char_def)

lemma digits_chars: "c \<in> set (digits n) \<Longrightarrow> \<exists>d<10. c = digit_char d"
proof (induction n rule: digits.induct)
  case (1 n)
  show ?case
  proof (cases "n < 10")
    case True
    with "1.prems" show ?thesis by (auto simp: digits.simps [of n])
  next
    case False
    with "1.prems" have "c \<in> set (digits (n div 10)) \<or> c = digit_char (n mod 10)"
      by (auto simp: digits.simps [of n])
    then show ?thesis
    proof
      assume "c \<in> set (digits (n div 10))"
      with "1.IH" False show ?thesis by simp
    next
      assume "c = digit_char (n mod 10)"
      then show ?thesis by (intro exI [of _ "n mod 10"]) simp
    qed
  qed
qed

lemma minus_notin_digits: "CHR ''-'' \<notin> set (digits n)"
proof
  assume "CHR ''-'' \<in> set (digits n)"
  then obtain d where "d < 10" "CHR ''-'' = digit_char d" using digits_chars by blast
  then have "of_char (CHR ''-'') = (48 + d :: nat)" using of_char_digit by metis
  then show False by simp
qed

lemma comma_notin_digits: "CHR '','' \<notin> set (digits n)"
proof
  assume "CHR '','' \<in> set (digits n)"
  then obtain d where "d < 10" "CHR '','' = digit_char d" using digits_chars by blast
  then have "of_char (CHR '','') = (48 + d :: nat)" using of_char_digit by metis
  then show False by simp
qed

lemma digits_not_Nil: "digits n \<noteq> []"
  by (simp add: digits.simps [of n])

lemma undigits_snoc: "undigits (s @ [c]) = 10 * undigits s + (of_char c - 48)"
  by (simp add: undigits_def)

lemma undigits_digits: "undigits (digits n) = n"
proof (induction n rule: digits.induct)
  case (1 n)
  show ?case
  proof (cases "n < 10")
    case True
    then show ?thesis by (simp add: digits.simps [of n] undigits_def of_char_digit)
  next
    case False
    have "undigits (digits n) = 10 * undigits (digits (n div 10)) + (of_char (digit_char (n mod 10)) - 48)"
      using False by (simp add: digits.simps [of n] undigits_snoc)
    also have "\<dots> = 10 * (n div 10) + n mod 10"
      using "1.IH" False by (simp add: of_char_digit)
    finally show ?thesis by simp
  qed
qed

lemma digits_inj: "digits m = digits n \<Longrightarrow> m = n"
  by (metis undigits_digits)

lemma hd_digits_not_minus: "hd (digits n) \<noteq> CHR ''-''"
  using minus_notin_digits [of n] digits_not_Nil [of n] by (metis hd_in_set)

lemma fmt_d_inj: "fmt_d i = fmt_d j \<Longrightarrow> i = j"
proof -
  assume e: "fmt_d i = fmt_d j"
  consider "i < 0" "j < 0" | "i < 0" "0 \<le> j" | "0 \<le> i" "j < 0" | "0 \<le> i" "0 \<le> j" by linarith
  then show ?thesis
  proof cases
    case 1
    with e have "digits (nat (- i)) = digits (nat (- j))" by (simp add: fmt_d_def)
    then have "nat (- i) = nat (- j)" by (rule digits_inj)
    with 1 show ?thesis by simp
  next
    case 2
    with e have "CHR ''-'' # digits (nat (- i)) = digits (nat j)" by (simp add: fmt_d_def)
    then have "hd (digits (nat j)) = CHR ''-''" by (metis list.sel(1))
    then show ?thesis using hd_digits_not_minus by blast
  next
    case 3
    with e have "digits (nat i) = CHR ''-'' # digits (nat (- j))" by (simp add: fmt_d_def)
    then have "hd (digits (nat i)) = CHR ''-''" by (metis list.sel(1))
    then show ?thesis using hd_digits_not_minus by blast
  next
    case 4
    with e have "digits (nat i) = digits (nat j)" by (simp add: fmt_d_def)
    then have "nat i = nat j" by (rule digits_inj)
    with 4 show ?thesis by simp
  qed
qed

lemma minus_notin_fmt_d: "0 \<le> i \<Longrightarrow> CHR ''-'' \<notin> set (fmt_d i)"
  by (simp add: fmt_d_def minus_notin_digits)

lemma comma_notin_fmt_d: "CHR '','' \<notin> set (fmt_d i)"
  by (simp add: fmt_d_def comma_notin_digits)

lemma fmt_v_inj: "fmt_v a = fmt_v b \<Longrightarrow> a = b"
  by (auto simp: fmt_v_def split: if_splits)

text \<open>A text is cut in one way only at its first separator, and at its last.\<close>

lemma takeWhile_separator: "c \<notin> set x \<Longrightarrow> takeWhile (\<lambda>y. y \<noteq> c) (x @ c # r) = x"
  by (induction x) auto

lemma first_separator_unique:
  assumes "c \<notin> set x1" and "c \<notin> set x2" and "x1 @ c # r1 = x2 @ c # r2"
  shows "x1 = x2 \<and> r1 = r2"
proof -
  have "takeWhile (\<lambda>y. y \<noteq> c) (x1 @ c # r1) = takeWhile (\<lambda>y. y \<noteq> c) (x2 @ c # r2)"
    using assms(3) by simp
  then have "x1 = x2"
    using assms(1,2) by (simp add: takeWhile_separator)
  with assms(3) show ?thesis by simp
qed

lemma last_separator_unique:
  assumes "c \<notin> set q1" and "c \<notin> set q2" and "x1 @ c # q1 = x2 @ c # q2"
  shows "x1 = x2 \<and> q1 = q2"
proof -
  from assms(3) have "rev (x1 @ c # q1) = rev (x2 @ c # q2)" by simp
  then have "rev q1 @ c # rev x1 = rev q2 @ c # rev x2" by simp
  moreover have "c \<notin> set (rev q1)" "c \<notin> set (rev q2)" using assms(1,2) by simp_all
  ultimately have "rev q1 = rev q2 \<and> rev x1 = rev x2"
    by (metis first_separator_unique)
  then show ?thesis by simp
qed

lemma plain_key_identity:
  assumes "plain_key a" and "plain_key b" and "key_string a = key_string b"
  shows "spec_identity a = spec_identity b"
proof -
  have pa: "CHR ''-'' \<notin> set (Protocol a)" and pb: "CHR ''-'' \<notin> set (Protocol b)"
    and da: "CHR ''-'' \<notin> set (fmt_d (Port a))" and db: "CHR ''-'' \<notin> set (fmt_d (Port b))"
    using assms(1,2) by (simp_all add: plain_key_def minus_notin_fmt_d)
  have "(NodeRole a @ CHR ''-'' # fmt_d (Port a)) @ CHR ''-'' # Protocol a =
        (NodeRole b @ CHR ''-'' # fmt_d (Port b)) @ CHR ''-'' # Protocol b"
    using assms(3) by (simp add: key_string_def)
  note 1 = last_separator_unique [OF pa pb this]
  note 2 = last_separator_unique [OF da db 1 [THEN conjunct1]]
  from 1 2 fmt_d_inj show ?thesis by (simp add: spec_identity_def)
qed

lemma identity_key: "spec_identity a = spec_identity b \<Longrightarrow> key_string a = key_string b"
  by (simp add: spec_identity_def key_string_def)

lemma sort_key_identity: "spec_sort_key a = spec_sort_key b \<longleftrightarrow> spec_identity a = spec_identity b"
  by (auto simp: spec_identity_def spec_sort_key_def)

lemma plain_fields_String_inj:
  assumes "plain_fields a" and "plain_fields b" and "String_ComDetails a = String_ComDetails b"
  shows "a = b"
proof -
  have "Direction a = Direction b \<and> Protocol a = Protocol b \<and> fmt_d (Port a) = fmt_d (Port b) \<and>
        Namespace a = Namespace b \<and> Service a = Service b \<and> Pod a = Pod b \<and>
        Container a = Container b \<and> NodeRole a = NodeRole b \<and> fmt_v (Optional a) = fmt_v (Optional b)"
  proof -
    note sep = first_separator_unique [of "CHR '',''"]
    have c: "CHR '','' \<notin> set (Direction a)" "CHR '','' \<notin> set (Direction b)"
      "CHR '','' \<notin> set (Protocol a)" "CHR '','' \<notin> set (Protocol b)"
      "CHR '','' \<notin> set (fmt_d (Port a))" "CHR '','' \<notin> set (fmt_d (Port b))"
      "CHR '','' \<notin> set (Namespace a)" "CHR '','' \<notin> set (Namespace b)"
      "CHR '','' \<notin> set (Service a)" "CHR '','' \<notin> set (Service b)"
      "CHR '','' \<notin> set (Pod a)" "CHR '','' \<notin> set (Pod b)"
      "CHR '','' \<notin> set (Container a)" "CHR '','' \<notin> set (Container b)"
      "CHR '','' \<notin> set (NodeRole a)" "CHR '','' \<notin> set (NodeRole b)"
      using assms(1,2) by (simp_all add: plain_fields_def comma_notin_fmt_d)
    from assms(3) have e0: "Direction a @ CHR '','' # (Protocol a @ CHR '','' # (fmt_d (Port a) @ CHR '','' #
        (Namespace a @ CHR '','' # (Service a @ CHR '','' # (Pod a @ CHR '','' # (Container a @ CHR '','' #
        (NodeRole a @ CHR '','' # fmt_v (Optional a)))))))) =
      Direction b @ CHR '','' # (Protocol b @ CHR '','' # (fmt_d (Port b) @ CHR '','' #
        (Namespace b @ CHR '','' # (Service b @ CHR '','' # (Pod b @ CHR '','' # (Container b @ CHR '','' #
        (NodeRole b @ CHR '','' # fmt_v (Optional b))))))))"
      by (simp add: String_ComDetails_def)
    note e1 = sep [OF c(1,2) e0]
    note e2 = sep [OF c(3,4) e1 [THEN conjunct2]]
    note e3 = sep [OF c(5,6) e2 [THEN conjunct2]]
    note e4 = sep [OF c(7,8) e3 [THEN conjunct2]]
    note e5 = sep [OF c(9,10) e4 [THEN conjunct2]]
    note e6 = sep [OF c(11,12) e5 [THEN conjunct2]]
    note e7 = sep [OF c(13,14) e6 [THEN conjunct2]]
    note e8 = sep [OF c(15,16) e7 [THEN conjunct2]]
    from e1 e2 e3 e4 e5 e6 e7 e8 show ?thesis by blast
  qed
  then show ?thesis
    using fmt_d_inj fmt_v_inj by (intro ComDetails.equality) auto
qed

section \<open>Equality of flow records (C2)\<close>

lemma Equals_same_fields:
  "NodeRole a = NodeRole b \<Longrightarrow> Port a = Port b \<Longrightarrow> Protocol a = Protocol b \<Longrightarrow> Equals a b"
  by (simp add: Equals_def key_string_def)

lemma Equals_ignores_other_fields:
  "Equals (cd\<lparr>Direction := d, Namespace := n, Service := s, Pod := p, Container := c, Optional := b\<rparr>) other
     = Equals cd other"
  by (simp add: Equals_def key_string_def)

lemma Equals_plain_key:
  "plain_key a \<Longrightarrow> plain_key b \<Longrightarrow> Equals a b \<longleftrightarrow> spec_identity a = spec_identity b"
  unfolding Equals_def Let_def by (metis plain_key_identity identity_key)

text \<open>
  Claim C2: \<^verbatim>\<open>Equals\<close> is true exactly when the two records agree on node role, port and
  protocol. Records that agree on the three fields are equal (\<open>Equals_same_fields\<close>), the
  other fields play no part (\<open>Equals_ignores_other_fields\<close>), and the converse holds when
  the port is not negative and the protocol has no \<^verbatim>\<open>-\<close> (\<open>Equals_plain_key\<close>). In general
  it fails: the key is the text \<^verbatim>\<open>nodeRole-port-protocol\<close>, and a \<^verbatim>\<open>-\<close> inside a field
  moves the boundaries. The two records below differ in all three fields and are equal for
  \<^verbatim>\<open>Equals\<close>.
\<close>

theorem Equals_key_collision:
  "Equals collide_a collide_b \<and> NodeRole collide_a \<noteq> NodeRole collide_b \<and>
   Port collide_a \<noteq> Port collide_b \<and> Protocol collide_a \<noteq> Protocol collide_b"
  by code_simp

section \<open>The firewall exporter (C10, C6)\<close>

lemma nft_fold:
  "fold nft_step xs (tcp, udp) =
     (tcp @ map (\<lambda>r. fmt_d (Port r)) (filter (\<lambda>r. Protocol r = ''TCP'') xs),
      udp @ map (\<lambda>r. fmt_d (Port r)) (filter (\<lambda>r. Protocol r = ''UDP'') xs))"
  by (induction xs arbitrary: tcp udp) (auto simp: nft_step_def)



lemma nft_text_lines:
  "nft_text tcpPortsStr udpPortsStr =
     nft_head @
     TAB @ TAB @ TAB @ ''tcp dport  { '' @ tcpPortsStr @ '' } accept'' @ NL @
     TAB @ TAB @ TAB @ ''udp dport { '' @ udpPortsStr @ '' } accept'' @ NL @
     nft_tail"
  by (simp add: nft_text_def nft_head_def nft_tail_def)

lemma sublist_strings_Join: "x \<in> set xs \<Longrightarrow> sublist x (strings_Join xs sep)"
proof (induction xs sep rule: strings_Join.induct)
  case (1 sep)
  then show ?case by simp
next
  case (2 y sep)
  then show ?case by simp
next
  case (3 y z ys sep)
  show ?case
  proof (cases "x = y")
    case True
    then show ?thesis by simp
  next
    case False
    with 3 have "sublist x (strings_Join (z # ys) sep)" by simp
    moreover have "sublist (strings_Join (z # ys) sep) ((y @ sep) @ strings_Join (z # ys) sep)"
      by (rule sublist_append_leftI)
    ultimately have "sublist x ((y @ sep) @ strings_Join (z # ys) sep)"
      by (rule sublist_order.order.trans)
    then show ?thesis by simp
  qed
qed

text \<open>
  Claim C10: for every matrix \<^verbatim>\<open>ToNFTables\<close> returns a text and no error. The rule line
  \<^verbatim>\<open>tcp dport\<close> of the text lists, in matrix order and separated by \<^verbatim>\<open>, \<close>, the ports of
  exactly the records whose protocol is the string \<^verbatim>\<open>TCP\<close>, the rule line \<^verbatim>\<open>udp dport\<close> those
  of the records whose protocol is \<^verbatim>\<open>UDP\<close>; the rest of the text is fixed, so that a record
  with any other protocol, \<^verbatim>\<open>tcp\<close> included, leaves no trace in it.
\<close>

theorem ToNFTables_ports:
  "ToNFTables st m =
     Inr (nft_head @
          TAB @ TAB @ TAB @ ''tcp dport  { '' @
            strings_Join (map (\<lambda>r. fmt_d (Port r))
              (filter (\<lambda>r. Protocol r = ''TCP'') (elems st (Matrix m)))) '', '' @
            '' } accept'' @ NL @
          TAB @ TAB @ TAB @ ''udp dport { '' @
            strings_Join (map (\<lambda>r. fmt_d (Port r))
              (filter (\<lambda>r. Protocol r = ''UDP'') (elems st (Matrix m)))) '', '' @
            '' } accept'' @ NL @
          nft_tail) \<and>
   (\<forall>r\<in>set (elems st (Matrix m)). Protocol r = ''TCP'' \<longrightarrow>
      sublist (fmt_d (Port r))
        (strings_Join (map (\<lambda>r. fmt_d (Port r))
           (filter (\<lambda>r. Protocol r = ''TCP'') (elems st (Matrix m)))) '', '')) \<and>
   (\<forall>r\<in>set (elems st (Matrix m)). Protocol r = ''UDP'' \<longrightarrow>
      sublist (fmt_d (Port r))
        (strings_Join (map (\<lambda>r. fmt_d (Port r))
           (filter (\<lambda>r. Protocol r = ''UDP'') (elems st (Matrix m)))) '', ''))"
proof -
  have "sublist (fmt_d (Port r))
          (strings_Join (map (\<lambda>r. fmt_d (Port r)) (filter (\<lambda>r. Protocol r = p) xs)) '', '')"
    if "r \<in> set xs" "Protocol r = p" for r p and xs :: "ComDetails list"
    using that by (intro sublist_strings_Join) auto
  then show ?thesis
    by (simp add: ToNFTables_def nft_fold nft_text_lines)
qed

text \<open>A run on five records, of which one has protocol \<^verbatim>\<open>tcp\<close> and one \<^verbatim>\<open>SCTP\<close>.\<close>

theorem ToNFTables_ports_witness:
  "ToNFTables case_store (matrix_at 0 case_store) =
     Inr (nft_head @
          TAB @ TAB @ TAB @ ''tcp dport  { 22, 443 } accept'' @ NL @
          TAB @ TAB @ TAB @ ''udp dport { 53 } accept'' @ NL @
          nft_tail) \<and>
   flow ''worker'' ''TCP'' 443 ''https'' \<in> set (elems case_store (Matrix (matrix_at 0 case_store))) \<and>
   sublist ''443'' ''22, 443''"
proof -
  let ?r = "flow ''worker'' ''TCP'' 443 ''https''"
  have t: "strings_Join (map (\<lambda>r. fmt_d (Port r)) (filter (\<lambda>r. Protocol r = ''TCP'')
          (elems case_store (Matrix (matrix_at 0 case_store))))) '', '' = ''22, 443''"
    by code_simp
  have u: "strings_Join (map (\<lambda>r. fmt_d (Port r)) (filter (\<lambda>r. Protocol r = ''UDP'')
          (elems case_store (Matrix (matrix_at 0 case_store))))) '', '' = ''53''"
    by code_simp
  have r: "?r \<in> set (elems case_store (Matrix (matrix_at 0 case_store)))" by code_simp
  have p: "Protocol ?r = ''TCP''" by code_simp
  have f: "fmt_d (Port ?r) = ''443''" by code_simp
  note T = ToNFTables_ports [of case_store "matrix_at 0 case_store"]
  from T [THEN conjunct1] t u
  have 1: "ToNFTables case_store (matrix_at 0 case_store) =
     Inr (nft_head @
          TAB @ TAB @ TAB @ ''tcp dport  { 22, 443 } accept'' @ NL @
          TAB @ TAB @ TAB @ ''udp dport { 53 } accept'' @ NL @
          nft_tail)"
    by simp
  from T [THEN conjunct2, THEN conjunct1, rule_format, OF r p] t f
  have 2: "sublist ''443'' ''22, 443''" by simp
  from 1 r 2 show ?thesis by blast
qed

text \<open>
  Claim C6: the text for one TCP/80 and one UDP/53 record contains \<^verbatim>\<open>tcp dport { 80 }\<close> and
  \<^verbatim>\<open>udp dport { 53 }\<close>. The UDP line is as claimed. The TCP line is not: the template of
  \<^verbatim>\<open>ToNFTables\<close> has a second blank between \<^verbatim>\<open>dport\<close> and the brace there, which the UDP line
  beside it does not have, and the text does not contain \<^verbatim>\<open>tcp dport { 80 }\<close>.
\<close>

theorem ToNFTables_single_blank_absent:
  "ToNFTables nft_store (matrix_at 0 nft_store) = Inr (nft_text ''80'' ''53'') \<and>
   \<not> sublist ''tcp dport { 80 }'' (nft_text ''80'' ''53'')"
  by code_simp

lemma nft_text_80_53:
  "sublist ''tcp dport  { 80 } accept'' (nft_text ''80'' ''53'') \<and>
   sublist ''udp dport { 53 } accept'' (nft_text ''80'' ''53'')"
  by code_simp

lemma fmt_d_80: "fmt_d 80 = ''80''"
  by code_simp

lemma fmt_d_53: "fmt_d 53 = ''53''"
  by code_simp

text \<open>
  What the text does contain when the only TCP record of the matrix has port 80 and the only
  UDP record has port 53.
\<close>

lemma ToNFTables_scenario:
  assumes "filter (\<lambda>r. Protocol r = ''TCP'') (elems st (Matrix m)) = [a]" and "Port a = 80"
    and "filter (\<lambda>r. Protocol r = ''UDP'') (elems st (Matrix m)) = [b]" and "Port b = 53"
  shows "\<exists>out. ToNFTables st m = Inr out \<and> sublist ''tcp dport  { 80 } accept'' out \<and>
           sublist ''udp dport { 53 } accept'' out"
proof -
  have "ToNFTables st m = Inr (nft_text ''80'' ''53'')"
    using assms by (simp add: ToNFTables_def nft_fold fmt_d_80 fmt_d_53)
  with nft_text_80_53 show ?thesis by blast
qed

lemma ToNFTables_scenario_run:
  "\<exists>out. ToNFTables nft_store (matrix_at 0 nft_store) = Inr out \<and>
     sublist ''tcp dport  { 80 } accept'' out \<and> sublist ''udp dport { 53 } accept'' out"
proof -
  let ?a = "flow ''master'' ''TCP'' 80 ''http''" and ?b = "flow ''master'' ''UDP'' 53 ''dns''"
  have 1: "filter (\<lambda>r. Protocol r = ''TCP'') (elems nft_store (Matrix (matrix_at 0 nft_store))) = [?a]"
    by code_simp
  have 2: "Port ?a = 80" by code_simp
  have 3: "filter (\<lambda>r. Protocol r = ''UDP'') (elems nft_store (Matrix (matrix_at 0 nft_store))) = [?b]"
    by code_simp
  have 4: "Port ?b = 53" by code_simp
  show ?thesis by (rule ToNFTables_scenario [OF 1 2 3 4])
qed

section \<open>Format tags (C5)\<close>

text \<open>
  Claim C5, as stated, takes the fourth tag to be \<^verbatim>\<open>nft-firewall\<close>. The constant \<^verbatim>\<open>FormatNFT\<close>
  is \<^verbatim>\<open>nft\<close>: that tag, outside the stated set, is exported, and \<^verbatim>\<open>nft-firewall\<close> is
  rejected.
\<close>

theorem print_nft_firewall_tag:
  "''nft'' \<notin> {''csv'', ''json'', ''yaml'', ''nft-firewall''} \<and>
   print std_extern nft_store (matrix_at 0 nft_store) ''nft'' = Inr (nft_text ''80'' ''53'') \<and>
   print std_extern nft_store (matrix_at 0 nft_store) ''nft-firewall'' =
     Inl (Errorf ''invalid format: nft-firewall. Please specify json, csv, yaml, or nft'')"
  by code_simp

text \<open>
  Claim C5, amended: for every matrix and every format tag, \<^verbatim>\<open>print\<close> returns a payload only
  for a tag among \<^verbatim>\<open>csv\<close>, \<^verbatim>\<open>json\<close>, \<^verbatim>\<open>yaml\<close> and \<^verbatim>\<open>nft\<close>, and for any other tag it returns the
  error \<^verbatim>\<open>invalid format\<close> that names the tag.
\<close>

theorem print_formats:
  "(\<not> isl (print E st m format) \<longrightarrow> format \<in> {''csv'', ''json'', ''yaml'', ''nft''}) \<and>
   (format \<notin> {''csv'', ''json'', ''yaml'', ''nft''} \<longrightarrow>
      print E st m format =
        Inl (Errorf (''invalid format: '' @ format @ ''. Please specify json, csv, yaml, or nft'')))"
  by (auto simp: print_def FormatJSON_def FormatCSV_def FormatYAML_def FormatNFT_def)

theorem print_formats_witness:
  "\<not> isl (print std_extern nft_store (matrix_at 0 nft_store) ''nft'') \<and>
   ''nft'' \<in> {''csv'', ''json'', ''yaml'', ''nft''} \<and>
   ''xml'' \<notin> {''csv'', ''json'', ''yaml'', ''nft''} \<and>
   print std_extern nft_store (matrix_at 0 nft_store) ''xml'' =
     Inl (Errorf ''invalid format: xml. Please specify json, csv, yaml, or nft'')"
proof -
  have 1: "\<not> isl (print std_extern nft_store (matrix_at 0 nft_store) ''nft'')"
    by (simp add: print_def FormatJSON_def FormatCSV_def FormatYAML_def FormatNFT_def ToNFTables_def
        split: prod.split)
  have 2: "''xml'' \<notin> {''csv'', ''json'', ''yaml'', ''nft''}" by simp
  from 1 2 print_formats [of std_extern nft_store "matrix_at 0 nft_store" "''nft''"]
    print_formats [of std_extern nft_store "matrix_at 0 nft_store" "''xml''"]
  show ?thesis by simp
qed

section \<open>Sorting (C4)\<close>

lemma sort_matrix_elems:
  "SortFunc_spec E \<Longrightarrow>
   elems (sort_matrix E st m) (Matrix m) = slices_SortFunc E sort_cmp (elems st (Matrix m))"
  by (simp add: sort_matrix_def sort_in_place_elems)

text \<open>
  Claim C4, as stated, has \<^verbatim>\<open>sort\<close> keep records with equal (nodeRole, protocol, port) in
  their original order. \<^verbatim>\<open>sort\<close> calls \<^verbatim>\<open>slices.SortFunc\<close>, which does not promise that, and
  from 13 records on the library does reorder: here the two records of port 50 stand first
  and seventh, the one at the seventh place is taken as pivot and swapped to the front, and
  the two come out in the other order. The outcome is in ascending order all the same.
\<close>

theorem sort_matrix_reorders_ties:
  "sort_cmp (flow ''master'' ''TCP'' 50 ''first'') (flow ''master'' ''TCP'' 50 ''second'') = 0 \<and>
   elems tie_store (Matrix (matrix_at 0 tie_store)) =
     [flow ''master'' ''TCP'' 50 ''first'', flow ''master'' ''TCP'' 10 ''a'',
      flow ''master'' ''TCP'' 20 ''b'', flow ''master'' ''TCP'' 30 ''c'',
      flow ''master'' ''TCP'' 40 ''d'', flow ''master'' ''TCP'' 45 ''e'',
      flow ''master'' ''TCP'' 50 ''second'', flow ''master'' ''TCP'' 60 ''f'',
      flow ''master'' ''TCP'' 70 ''g'', flow ''master'' ''TCP'' 80 ''h'',
      flow ''master'' ''TCP'' 90 ''i'', flow ''master'' ''TCP'' 95 ''j'',
      flow ''master'' ''TCP'' 5 ''k''] \<and>
   elems (sort_matrix go_extern tie_store (matrix_at 0 tie_store)) (Matrix (matrix_at 0 tie_store)) =
     [flow ''master'' ''TCP'' 5 ''k'', flow ''master'' ''TCP'' 10 ''a'',
      flow ''master'' ''TCP'' 20 ''b'', flow ''master'' ''TCP'' 30 ''c'',
      flow ''master'' ''TCP'' 40 ''d'', flow ''master'' ''TCP'' 45 ''e'',
      flow ''master'' ''TCP'' 50 ''second'', flow ''master'' ''TCP'' 50 ''first'',
      flow ''master'' ''TCP'' 60 ''f'', flow ''master'' ''TCP'' 70 ''g'',
      flow ''master'' ''TCP'' 80 ''h'', flow ''master'' ''TCP'' 90 ''i'',
      flow ''master'' ''TCP'' 95 ''j''] \<and>
   sorted (map spec_sort_key
     (elems (sort_matrix go_extern tie_store (matrix_at 0 tie_store)) (Matrix (matrix_at 0 tie_store))))"
  by code_simp

text \<open>
  Claim C4, amended: whatever \<^verbatim>\<open>slices.SortFunc\<close> does within its contract, \<^verbatim>\<open>sort\<close> leaves
  the same records in the matrix, in ascending order of (nodeRole, protocol, port), strings
  compared lexicographically and ports as numbers. The order among records with equal keys
  is not fixed; when no two records have the same key, the outcome is the one a stable sort
  gives.
\<close>

theorem sort_matrix_ordered:
  assumes "SortFunc_spec E"
  shows "mset (elems (sort_matrix E st m) (Matrix m)) = mset (elems st (Matrix m)) \<and>
         sorted (map spec_sort_key (elems (sort_matrix E st m) (Matrix m))) \<and>
         (distinct (map spec_sort_key (elems st (Matrix m))) \<longrightarrow>
            elems (sort_matrix E st m) (Matrix m) = sort_key spec_sort_key (elems st (Matrix m)))"
proof -
  let ?ys = "elems (sort_matrix E st m) (Matrix m)" and ?xs = "elems st (Matrix m)"
  have ys: "?ys = slices_SortFunc E sort_cmp ?xs" by (rule sort_matrix_elems [OF assms])
  have m: "mset ?ys = mset ?xs" unfolding ys by (rule SortFunc_mset [OF assms])
  have s: "sorted (map spec_sort_key ?ys)" unfolding ys by (rule SortFunc_sorted [OF assms])
  from m s sorted_distinct_unique [OF m s] show ?thesis by blast
qed

theorem sort_matrix_ordered_witness:
  "SortFunc_spec std_extern \<and>
   distinct (map spec_sort_key (elems sort_store (Matrix (matrix_at 0 sort_store)))) \<and>
   elems (sort_matrix std_extern sort_store (matrix_at 0 sort_store)) (Matrix (matrix_at 0 sort_store)) =
     [flow ''master'' ''TCP'' 22 ''d'', flow ''master'' ''TCP'' 6443 ''c'',
      flow ''master'' ''UDP'' 53 ''b'', flow ''worker'' ''TCP'' 22 ''a'']"
proof -
  have d: "distinct (map spec_sort_key (elems sort_store (Matrix (matrix_at 0 sort_store))))"
    by code_simp
  have "sort_key spec_sort_key (elems sort_store (Matrix (matrix_at 0 sort_store))) =
     [flow ''master'' ''TCP'' 22 ''d'', flow ''master'' ''TCP'' 6443 ''c'',
      flow ''master'' ''UDP'' 53 ''b'', flow ''worker'' ''TCP'' 22 ''a'']"
    by code_simp
  with d sort_matrix_ordered [OF SortFunc_spec_std, of sort_store "matrix_at 0 sort_store"]
    SortFunc_spec_std
  show ?thesis by simp
qed

section \<open>Deduplication and normalisation (C7, C8)\<close>

lemma first_per_key_keys: "f ` set (first_per_key f seen xs) = f ` set xs - seen"
  by (induction xs arbitrary: seen) auto

lemma first_per_key_subset: "set (first_per_key f seen xs) \<subseteq> set xs"
  by (induction xs arbitrary: seen) auto

lemma first_per_key_distinct: "distinct (map f (first_per_key f seen xs))"
proof (induction xs arbitrary: seen)
  case Nil
  then show ?case by simp
next
  case (Cons x xs)
  have "f x \<notin> f ` set (first_per_key f (insert (f x) seen) xs)"
    by (simp add: first_per_key_keys)
  with Cons show ?case by simp
qed

lemma first_per_key_id:
  "distinct (map f xs) \<Longrightarrow> f ` set xs \<inter> seen = {} \<Longrightarrow> first_per_key f seen xs = xs"
proof (induction xs arbitrary: seen)
  case Nil
  then show ?case by simp
next
  case (Cons x xs)
  from Cons.prems have "f ` set xs \<inter> insert (f x) seen = {}" by auto
  with Cons show ?case by auto
qed

lemma first_per_key_first:
  "y \<in> set (first_per_key f seen xs) \<Longrightarrow> find (\<lambda>x. f x = f y) xs = Some y"
proof (induction xs arbitrary: seen)
  case Nil
  then show ?case by simp
next
  case (Cons a xs)
  show ?case
  proof (cases "f a \<in> seen")
    case True
    with Cons.prems have y: "y \<in> set (first_per_key f seen xs)" by simp
    then have "f y \<in> f ` set xs - seen" using first_per_key_keys [of f seen xs] by blast
    with True have "f a \<noteq> f y" by auto
    with Cons.IH [OF y] show ?thesis by simp
  next
    case False
    show ?thesis
    proof (cases "y = a")
      case True
      then show ?thesis by simp
    next
      case ne: False
      with False Cons.prems have y: "y \<in> set (first_per_key f (insert (f a) seen) xs)" by simp
      then have "f y \<in> f ` set xs - insert (f a) seen"
        using first_per_key_keys [of f "insert (f a) seen" xs] by blast
      then have "f a \<noteq> f y" by auto
      with Cons.IH [OF y] show ?thesis by simp
    qed
  qed
qed

lemma deleteDuplicates_fold:
  assumes "wf_slice st res"
    and "fold (deleteDuplicates_step E) xs (allKeys, res, st) = (allKeys', res', st')"
  shows "wf_slice st' res' \<and> elems st' res' = elems st res @ first_per_key key_string (dom allKeys) xs"
  using assms
proof (induction xs arbitrary: allKeys res st)
  case Nil
  then show ?case by simp
next
  case (Cons x xs)
  show ?case
  proof (cases "allKeys (key_string x) = None")
    case True
    obtain r1 s1 where ap: "append_go E st res x = (r1, s1)" by (cases "append_go E st res x")
    note A = append_go_elems [OF Cons.prems(1) ap]
    have "deleteDuplicates_step E x (allKeys, res, st) = (allKeys(key_string x \<mapsto> True), r1, s1)"
      using True ap by (simp add: deleteDuplicates_step_def Let_def)
    with Cons.prems(2)
    have "fold (deleteDuplicates_step E) xs (allKeys(key_string x \<mapsto> True), r1, s1) = (allKeys', res', st')"
      by simp
    moreover from True have "key_string x \<notin> dom allKeys" by (simp add: domIff)
    ultimately show ?thesis using Cons.IH [OF A(2)] A(1)
      by (simp del: fun_upd_apply)
  next
    case False
    then have "deleteDuplicates_step E x (allKeys, res, st) = (allKeys, res, st)"
      by (auto simp: deleteDuplicates_step_def Let_def)
    with Cons.prems(2)
    have "fold (deleteDuplicates_step E) xs (allKeys, res, st) = (allKeys', res', st')"
      by simp
    moreover from False have "key_string x \<in> dom allKeys" by (simp add: domIff)
    ultimately show ?thesis using Cons.IH [OF Cons.prems(1)] by simp
  qed
qed

lemma deleteDuplicates_elems:
  "matrix_elems (deleteDuplicates E st m) = first_per_key key_string {} (elems st (Matrix m))"
proof -
  let ?res0 = "\<lparr>base = length st, len = 0\<rparr>" and ?st0 = "st @ [[]]"
  obtain ks res st' where f: "fold (deleteDuplicates_step E) (elems st (Matrix m)) (Map.empty, ?res0, ?st0) = (ks, res, st')"
    by (cases "fold (deleteDuplicates_step E) (elems st (Matrix m)) (Map.empty, ?res0, ?st0)")
  have w: "wf_slice ?st0 ?res0" by (simp add: wf_slice_def)
  have e: "elems ?st0 ?res0 = []" by (simp add: elems_def)
  from deleteDuplicates_fold [OF w f] e
  have "elems st' res = first_per_key key_string {} (elems st (Matrix m))" by simp
  then show ?thesis
    by (simp add: deleteDuplicates_def empty_slice_def f matrix_elems_def)
qed

lemma CleanComDetails_elems:
  assumes "SortFunc_spec E"
  shows "matrix_elems (CleanComDetails E st m) =
           slices_SortFunc E sort_cmp (first_per_key key_string {} (elems st (Matrix m)))"
proof -
  obtain m' st' where d: "deleteDuplicates E st m = (m', st')" by (cases "deleteDuplicates E st m")
  have "elems st' (Matrix m') = first_per_key key_string {} (elems st (Matrix m))"
    using deleteDuplicates_elems [of E st m] d by (simp add: matrix_elems_def)
  then show ?thesis
    using d sort_matrix_elems [OF assms, of st' m'] by (simp add: CleanComDetails_def matrix_elems_def)
qed

lemma key_distinct_sort_key_distinct:
  assumes "distinct (map key_string xs)"
  shows "distinct (map spec_sort_key xs)"
proof -
  have "distinct xs" and "inj_on key_string (set xs)"
    using assms by (simp_all add: distinct_map)
  moreover have "inj_on spec_sort_key (set xs)"
  proof (rule inj_onI)
    fix a b assume "a \<in> set xs" "b \<in> set xs" "spec_sort_key a = spec_sort_key b"
    then have "spec_identity a = spec_identity b"
      using sort_key_identity [of a b] by simp
    then have "key_string a = key_string b"
      by (rule identity_key)
    with \<open>inj_on key_string (set xs)\<close> \<open>a \<in> set xs\<close> \<open>b \<in> set xs\<close> show "a = b"
      by (simp add: inj_on_def)
  qed
  ultimately show ?thesis by (simp add: distinct_map)
qed

lemma Clean_fixed:
  assumes spec: "SortFunc_spec E" and X: "X = slices_SortFunc E sort_cmp (first_per_key key_string {} xs)"
  shows "slices_SortFunc E sort_cmp (first_per_key key_string {} X) = X"
proof -
  let ?D = "first_per_key key_string {} xs"
  have mX: "mset X = mset ?D" unfolding X by (rule SortFunc_mset [OF spec])
  have "mset (map key_string X) = mset (map key_string ?D)" using mX by (metis mset_map)
  then have dX: "distinct (map key_string X)"
    using first_per_key_distinct [of key_string "{}" xs] by (metis mset_eq_imp_distinct_iff)
  then have fp: "first_per_key key_string {} X = X" by (simp add: first_per_key_id)
  have sX: "sorted (map spec_sort_key X)" unfolding X by (rule SortFunc_sorted [OF spec])
  have dk: "distinct (map spec_sort_key X)" by (rule key_distinct_sort_key_distinct [OF dX])
  have 1: "X = sort_key spec_sort_key X"
    by (rule sorted_distinct_unique [OF refl sX dk])
  have 2: "slices_SortFunc E sort_cmp X = sort_key spec_sort_key X"
    by (rule sorted_distinct_unique [OF SortFunc_mset [OF spec] SortFunc_sorted [OF spec] dk])
  from 1 2 fp show ?thesis by simp
qed

text \<open>
  Claim C8: \<^verbatim>\<open>CleanComDetails\<close> is idempotent. Whatever \<^verbatim>\<open>slices.SortFunc\<close> does within its
  contract, cleaning the cleaned matrix gives the same records in the same order: after the
  first pass no two records share a key, so nothing is dropped and the sorted order is
  unique.
\<close>

theorem CleanComDetails_idempotent:
  assumes "SortFunc_spec E"
  shows "matrix_elems (case CleanComDetails E st m of (m1, st1) \<Rightarrow> CleanComDetails E st1 m1) =
         matrix_elems (CleanComDetails E st m)"
proof -
  obtain m1 st1 where c: "CleanComDetails E st m = (m1, st1)" by (cases "CleanComDetails E st m")
  have X: "elems st1 (Matrix m1) = slices_SortFunc E sort_cmp (first_per_key key_string {} (elems st (Matrix m)))"
    using CleanComDetails_elems [OF assms, of st m] c by (simp add: matrix_elems_def)
  have "matrix_elems (CleanComDetails E st1 m1) = elems st1 (Matrix m1)"
    using CleanComDetails_elems [OF assms, of st1 m1] Clean_fixed [OF assms X] by simp
  then show ?thesis using c by (simp add: matrix_elems_def)
qed

theorem CleanComDetails_idempotent_witness:
  "SortFunc_spec std_extern \<and>
   matrix_elems (CleanComDetails std_extern dup_store (matrix_at 0 dup_store)) =
     [flow ''master'' ''TCP'' 22 ''d'', flow ''master'' ''UDP'' 53 ''b'', flow ''worker'' ''TCP'' 22 ''a''] \<and>
   matrix_elems (case CleanComDetails std_extern dup_store (matrix_at 0 dup_store) of
       (m1, st1) \<Rightarrow> CleanComDetails std_extern st1 m1) =
     [flow ''master'' ''TCP'' 22 ''d'', flow ''master'' ''UDP'' 53 ''b'', flow ''worker'' ''TCP'' 22 ''a'']"
proof -
  have "matrix_elems (CleanComDetails std_extern dup_store (matrix_at 0 dup_store)) =
     [flow ''master'' ''TCP'' 22 ''d'', flow ''master'' ''UDP'' 53 ''b'', flow ''worker'' ''TCP'' 22 ''a'']"
    by code_simp
  with CleanComDetails_idempotent [OF SortFunc_spec_std, of dup_store "matrix_at 0 dup_store"]
    SortFunc_spec_std
  show ?thesis by simp
qed

text \<open>
  Claim C7: \<^verbatim>\<open>CleanComDetails\<close> keeps, for each (nodeRole, port, protocol), exactly one record,
  the first in input order. It keeps the first record of each formatted key
  (\<open>CleanComDetails_elems\<close>, \<open>first_per_key_first\<close>), and two identities can share a key: here
  the second record is dropped although no record before it has its identity.
\<close>

theorem CleanComDetails_key_collision:
  "matrix_elems (CleanComDetails std_extern [[collide_a, collide_b]]
      (matrix_at 0 [[collide_a, collide_b]])) = [collide_a] \<and>
   spec_identity collide_b \<noteq> spec_identity collide_a"
  by code_simp

section \<open>Combining two matrices (C1)\<close>

lemma Contains_loop_plain:
  assumes "\<forall>cd\<in>set A. plain_key cd" and "plain_key b"
  shows "Contains_loop A b \<longleftrightarrow> spec_identity b \<in> spec_identity ` set A"
proof -
  have "Contains_loop A b \<longleftrightarrow> (\<exists>a\<in>set A. spec_identity a = spec_identity b)"
    unfolding Contains_loop_iff using assms Equals_plain_key by blast
  also have "\<dots> \<longleftrightarrow> spec_identity b \<in> spec_identity ` set A"
    unfolding image_iff by metis
  finally show ?thesis .
qed

lemma appended_plain:
  assumes "\<forall>cd\<in>set A \<union> set B. plain_key cd"
  shows "appended A B = filter (\<lambda>b. spec_identity b \<notin> spec_identity ` set A) B"
  unfolding appended_def
proof (rule filter_cong [OF refl])
  fix b assume "b \<in> set B"
  with assms have "plain_key b" and "\<forall>cd\<in>set A. plain_key cd" by auto
  then show "(\<not> Contains_loop A b) = (spec_identity b \<notin> spec_identity ` set A)"
    using Contains_loop_plain by simp
qed

lemma combine_elems:
  assumes "SortFunc_spec E" and "wf_slice st (Matrix m)" and "wf_slice st (Matrix other)"
    and "base (Matrix m) \<noteq> base (Matrix other)"
  shows "matrix_elems (combine E st m other) =
           slices_SortFunc E sort_cmp
             (elems st (Matrix m) @ appended (elems st (Matrix m)) (elems st (Matrix other)))"
proof -
  obtain cm st2 where c: "combine E st m other = (cm, st2)" by (cases "combine E st m other")
  from combine_effect(1) [OF assms c] c show ?thesis by (simp add: matrix_elems_def)
qed

text \<open>
  Claim C1: for every pair of matrices \<^verbatim>\<open>combine\<close> returns the records of the receiver and
  the records of the other matrix whose identity is not in the receiver, sorted and free of
  identity duplicates; the comment above \<^verbatim>\<open>combine\<close> says the same (\<^verbatim>\<open>with no duplications\<close>).
  \<^verbatim>\<open>combine\<close> tests each record of the other matrix against the receiver only, not against
  what it has appended so far: with an empty receiver both records of the other matrix are
  kept, though they have the same identity.
\<close>

theorem combine_keeps_duplicates:
  "matrix_elems (combine std_extern twin_store (matrix_at 0 twin_store) (matrix_at 1 twin_store)) =
     [flow ''master'' ''TCP'' 22 ''first'', flow ''master'' ''TCP'' 22 ''second''] \<and>
   spec_identity (flow ''master'' ''TCP'' 22 ''first'') = spec_identity (flow ''master'' ''TCP'' 22 ''second'')"
  by code_simp

text \<open>
  A second way to miss the claim comes from \<^verbatim>\<open>Equals\<close>: a record of the other matrix whose key
  collides with a key of the receiver is left out, although its identity is new.
\<close>

lemma combine_key_collision:
  "matrix_elems (combine std_extern collide_store (matrix_at 0 collide_store) (matrix_at 1 collide_store)) =
     [collide_a] \<and>
   spec_identity collide_b \<noteq> spec_identity collide_a"
  by code_simp

text \<open>
  Where \<^verbatim>\<open>combine\<close> does what the claim says: let the two matrices lie in different arrays
  and let every record have a non-negative port and a protocol without \<^verbatim>\<open>-\<close>. Then \<^verbatim>\<open>combine\<close>
  returns exactly the records of the receiver and the records of the other matrix whose
  (nodeRole, port, protocol) does not occur in the receiver, in ascending order of
  (nodeRole, protocol, port); and if neither matrix has two records with the same identity,
  neither has the result.
\<close>

lemma combine_contents:
  assumes "SortFunc_spec E" and "wf_slice st (Matrix m)" and "wf_slice st (Matrix other)"
    and "base (Matrix m) \<noteq> base (Matrix other)"
    and "\<forall>cd\<in>set (elems st (Matrix m)) \<union> set (elems st (Matrix other)). plain_key cd"
  shows "mset (matrix_elems (combine E st m other)) =
           mset (elems st (Matrix m)) +
           mset (filter (\<lambda>b. spec_identity b \<notin> spec_identity ` set (elems st (Matrix m)))
                   (elems st (Matrix other))) \<and>
         sorted (map spec_sort_key (matrix_elems (combine E st m other))) \<and>
         (distinct (map spec_identity (elems st (Matrix m))) \<and>
          distinct (map spec_identity (elems st (Matrix other))) \<longrightarrow>
            distinct (map spec_identity (matrix_elems (combine E st m other))))"
proof -
  let ?A = "elems st (Matrix m)" and ?B = "elems st (Matrix other)"
  let ?F = "filter (\<lambda>b. spec_identity b \<notin> spec_identity ` set ?A) ?B"
  let ?U = "matrix_elems (combine E st m other)"
  have U: "?U = slices_SortFunc E sort_cmp (?A @ ?F)"
    using combine_elems [OF assms(1-4)] appended_plain [OF assms(5)] by simp
  have m: "mset ?U = mset ?A + mset ?F"
    unfolding U using SortFunc_mset [OF assms(1)] by simp
  have s: "sorted (map spec_sort_key ?U)"
    unfolding U by (rule SortFunc_sorted [OF assms(1)])
  have d: "distinct (map spec_identity ?U)"
    if dA: "distinct (map spec_identity ?A)" and dB: "distinct (map spec_identity ?B)"
  proof -
    have "distinct (map spec_identity ?F)" using dB by (rule distinct_map_filter)
    moreover have "spec_identity ` set ?A \<inter> spec_identity ` set ?F = {}" by auto
    ultimately have "distinct (map spec_identity (?A @ ?F))" using dA by simp
    moreover have "mset (map spec_identity ?U) = mset (map spec_identity (?A @ ?F))"
      using m by (metis mset_append mset_map)
    ultimately show ?thesis by (metis mset_eq_imp_distinct_iff)
  qed
  from m s d show ?thesis by blast
qed

lemma combine_contents_run:
  "SortFunc_spec std_extern \<and>
   distinct (map spec_identity (elems scenario_store (Matrix (matrix_at 0 scenario_store)))) \<and>
   distinct (map spec_identity (elems scenario_store (Matrix (matrix_at 1 scenario_store)))) \<and>
   matrix_elems (combine std_extern scenario_store (matrix_at 0 scenario_store) (matrix_at 1 scenario_store)) =
     [flow ''master'' ''TCP'' 22 ''sshd'', flow ''master'' ''TCP'' 53 ''http'',
      flow ''master'' ''TCP'' 64 ''api'', flow ''master'' ''TCP'' 99 ''extra''] \<and>
   distinct (map spec_identity
     (matrix_elems (combine std_extern scenario_store (matrix_at 0 scenario_store) (matrix_at 1 scenario_store))))"
proof -
  have w0: "wf_slice scenario_store (Matrix (matrix_at 0 scenario_store))" by code_simp
  have w1: "wf_slice scenario_store (Matrix (matrix_at 1 scenario_store))" by code_simp
  have ne: "base (Matrix (matrix_at 0 scenario_store)) \<noteq> base (Matrix (matrix_at 1 scenario_store))"
    by code_simp
  have pk: "\<forall>cd\<in>set (elems scenario_store (Matrix (matrix_at 0 scenario_store))) \<union>
               set (elems scenario_store (Matrix (matrix_at 1 scenario_store))). plain_key cd"
    by code_simp
  have dA: "distinct (map spec_identity (elems scenario_store (Matrix (matrix_at 0 scenario_store))))"
    by code_simp
  have dB: "distinct (map spec_identity (elems scenario_store (Matrix (matrix_at 1 scenario_store))))"
    by code_simp
  have ev: "matrix_elems (combine std_extern scenario_store (matrix_at 0 scenario_store) (matrix_at 1 scenario_store)) =
     [flow ''master'' ''TCP'' 22 ''sshd'', flow ''master'' ''TCP'' 53 ''http'',
      flow ''master'' ''TCP'' 64 ''api'', flow ''master'' ''TCP'' 99 ''extra'']"
    by code_simp
  from combine_contents [OF SortFunc_spec_std w0 w1 ne pk] dA dB
  have "distinct (map spec_identity
     (matrix_elems (combine std_extern scenario_store (matrix_at 0 scenario_store) (matrix_at 1 scenario_store))))"
    by blast
  with SortFunc_spec_std dA dB ev show ?thesis by blast
qed

section \<open>The diff report (C3, C9)\<close>

lemma headers_csv: "getComMatrixHeadersByFormat E FormatCSV = Inr csv_header"
  by (simp add: getComMatrixHeadersByFormat_def FormatCSV_def ComDetails_tags_def Tag_Get_def
      csv_header_def)

lemma mark_own_inj:
  assumes "inj_on String_ComDetails (insert c (set xs))"
  shows "fold (mark_own st other) xs mp (String_ComDetails c) =
           (if c \<in> set xs then Some (if Contains st other c then 0 else 1)
            else mp (String_ComDetails c))"
  using assms
proof (induction xs arbitrary: mp)
  case Nil
  then show ?case by simp
next
  case (Cons x xs)
  have inj: "inj_on String_ComDetails (insert c (set xs))"
    using Cons.prems by (rule inj_on_subset) auto
  have eq: "String_ComDetails x = String_ComDetails c \<longleftrightarrow> x = c"
    using Cons.prems by (auto simp: inj_on_def)
  show ?case
    using Cons.IH [OF inj, of "mark_own st other x mp"] eq
    by (auto simp: mark_own_def)
qed

lemma mark_other_inj:
  assumes "inj_on String_ComDetails (insert c (set ys))"
  shows "fold (mark_other st m) ys mp (String_ComDetails c) =
           (if c \<in> set ys \<and> Service c \<noteq> ''rpc.statd'' \<and> \<not> Contains st m c then Some (- 1)
            else mp (String_ComDetails c))"
  using assms
proof (induction ys arbitrary: mp)
  case Nil
  then show ?case by simp
next
  case (Cons y ys)
  have inj: "inj_on String_ComDetails (insert c (set ys))"
    using Cons.prems by (rule inj_on_subset) auto
  have eq: "String_ComDetails y = String_ComDetails c \<longleftrightarrow> y = c"
    using Cons.prems by (auto simp: inj_on_def)
  show ?case
    using Cons.IH [OF inj, of "mark_other st m y mp"] eq
    by (auto simp: mark_other_def)
qed

lemma sign_of_record:
  assumes "inj_on String_ComDetails (insert c (set (elems st m_s) \<union> set (elems st o_s)))"
    and "Matrix m = m_s" and "Matrix other = o_s"
  shows "map_get (markDiffBetweenMatrices st m other) (String_ComDetails c) =
           (if c \<in> set (elems st o_s) \<and> Service c \<noteq> ''rpc.statd'' \<and> \<not> Contains st m c then - 1
            else if c \<in> set (elems st m_s) then (if Contains st other c then 0 else 1)
            else 0)"
proof -
  have i1: "inj_on String_ComDetails (insert c (set (elems st m_s)))"
    using assms(1) by (rule inj_on_subset) auto
  have i2: "inj_on String_ComDetails (insert c (set (elems st o_s)))"
    using assms(1) by (rule inj_on_subset) auto
  show ?thesis
    unfolding markDiffBetweenMatrices_def assms(2,3) map_get_def
    by (simp add: mark_other_inj [OF i2] mark_own_inj [OF i1])
qed

lemma diff_entry_fold:
  "fold (diff_entry mp) xs acc = acc @ concat (map (\<lambda>cd. diff_entry mp cd []) xs)"
proof (induction xs arbitrary: acc)
  case Nil
  then show ?case by simp
next
  case (Cons x xs)
  have "diff_entry mp x acc = acc @ diff_entry mp x []"
    by (simp add: diff_entry_def Let_def)
  with Cons show ?case by simp
qed

lemma Contains_plain:
  assumes "\<forall>cd\<in>set A. plain_key cd" and "plain_key c" and "set (elems st (Matrix m)) = set A"
  shows "Contains st m c \<longleftrightarrow> spec_identity c \<in> spec_identity ` set A"
proof -
  have "Contains st m c \<longleftrightarrow> (\<exists>a\<in>set A. Equals a c)"
    by (simp add: Contains_def Contains_loop_iff assms(3))
  also have "\<dots> \<longleftrightarrow> Contains_loop A c" by (simp add: Contains_loop_iff)
  finally show ?thesis using Contains_loop_plain [OF assms(1,2)] by simp
qed

lemma set_appended: "set (appended A B) = {b \<in> set B. \<not> Contains_loop A b}"
  by (auto simp: appended_def)

lemma plain_fields_inj_on:
  "\<forall>cd\<in>S. plain_fields cd \<Longrightarrow> inj_on String_ComDetails S"
  by (rule inj_onI) (simp add: plain_fields_String_inj)

lemma rpc_statd_sign_zero:
  assumes spec: "SortFunc_spec E"
    and wm: "wf_slice st (Matrix m)" and wo: "wf_slice st (Matrix other)"
    and ne: "base (Matrix m) \<noteq> base (Matrix other)"
    and inj: "inj_on String_ComDetails (set (elems st (Matrix m)) \<union> set (elems st (Matrix other)))"
    and c: "c \<in> set (elems st (Matrix other))" "Service c = ''rpc.statd''"
  shows "map_get (markDiffBetweenMatrices (snd (combine E st m other)) m other) (String_ComDetails c) = 0"
proof -
  let ?A = "elems st (Matrix m)" and ?B = "elems st (Matrix other)"
  obtain cm st1 where r: "combine E st m other = (cm, st1)" by (cases "combine E st m other")
  note ce = combine_effect [OF spec wm wo ne r]
  have "set (elems st1 (Matrix cm)) = set ?A \<union> set (appended ?A ?B)"
    unfolding ce(1) using SortFunc_set [OF spec] by simp
  with ce(3) have "set (elems st1 (Matrix m)) \<subseteq> set ?A \<union> set ?B"
    by (auto simp: appended_def)
  with c(1) ce(2)
  have "insert c (set (elems st1 (Matrix m)) \<union> set (elems st1 (Matrix other))) \<subseteq> set ?A \<union> set ?B"
    by auto
  with inj have "inj_on String_ComDetails (insert c (set (elems st1 (Matrix m)) \<union> set (elems st1 (Matrix other))))"
    by (rule inj_on_subset)
  note s = sign_of_record [OF this refl refl]
  have "Contains st1 other c"
    using c(1) ce(2) by (auto simp: Contains_def Contains_loop_iff Equals_def)
  with s c(2) r show ?thesis by simp
qed

text \<open>
  Claim C3: every record of the combined matrix is marked with exactly one of \<^verbatim>\<open>+\<close>, \<^verbatim>\<open>-\<close> or
  no mark, and the unmarked records are those whose identity is in both matrices.
  \<^verbatim>\<open>GenerateMatrixDiff\<close> calls \<^verbatim>\<open>combine\<close> before it computes the marks, and \<^verbatim>\<open>combine\<close>, whose
  comment promises a new matrix, starts from the slice of the receiver: when that slice has
  spare capacity it appends into the array of the receiver and sorts there. A matrix of three
  records has length 3 and capacity 4 when \<^verbatim>\<open>CleanComDetails\<close> has built it. Compared with a
  matrix that shares port 22 with it and has port 53 of its own, it no longer holds port 99
  when the marks are computed but port 53: the lines of ports 53 and 99, each in one matrix
  only, come out without a mark.
\<close>

theorem GenerateMatrixDiff_after_clean:
  "matrix_elems cleaned =
     [flow ''master'' ''TCP'' 22 ''sshd'', flow ''master'' ''TCP'' 64 ''api'',
      flow ''master'' ''TCP'' 99 ''extra''] \<and>
   len (Matrix (fst cleaned)) = 3 \<and> cap (snd cleaned) (Matrix (fst cleaned)) = 4 \<and>
   elems (snd cleaned) (Matrix (matrix_at 1 (snd cleaned))) =
     [flow ''master'' ''TCP'' 22 ''ssh'', flow ''master'' ''TCP'' 53 ''dns''] \<and>
   fst (GenerateMatrixDiff std_extern (snd cleaned) (fst cleaned) (matrix_at 1 (snd cleaned))) =
     Inr (csv_header @ NL @
          ''Ingress,TCP,22,,sshd,,,master,false'' @ NL @
          ''Ingress,TCP,53,,dns,,,master,false'' @ NL @
          ''+ Ingress,TCP,64,,api,,,master,false'' @ NL @
          ''Ingress,TCP,99,,extra,,,master,false'' @ NL)"
  by code_simp

text \<open>The same on a literal store: the receiver, with one spare place, loses port 64 for
  port 53 of the other matrix, and no line of the report is marked.\<close>

lemma GenerateMatrixDiff_spare_capacity:
  "elems spare_store \<lparr>base = 0, len = 2\<rparr> =
     [flow ''master'' ''TCP'' 22 ''sshd'', flow ''master'' ''TCP'' 64 ''api''] \<and>
   cap spare_store \<lparr>base = 0, len = 2\<rparr> = 3 \<and>
   fst (GenerateMatrixDiff std_extern spare_store \<lparr>Matrix = \<lparr>base = 0, len = 2\<rparr>\<rparr> (matrix_at 1 spare_store)) =
     Inr (csv_header @ NL @
          ''Ingress,TCP,22,,sshd,,,master,false'' @ NL @
          ''Ingress,TCP,53,,http,,,master,false'' @ NL @
          ''Ingress,TCP,64,,api,,,master,false'' @ NL) \<and>
   elems (snd (GenerateMatrixDiff std_extern spare_store \<lparr>Matrix = \<lparr>base = 0, len = 2\<rparr>\<rparr> (matrix_at 1 spare_store)))
       \<lparr>base = 0, len = 2\<rparr> =
     [flow ''master'' ''TCP'' 22 ''sshd'', flow ''master'' ''TCP'' 53 ''http'']"
  by code_simp

text \<open>
  A record of service \<^verbatim>\<open>rpc.statd\<close> that is in the second matrix only is skipped by the
  marking loop and printed without a mark: here the first matrix is empty and the report has
  one unmarked line.
\<close>

lemma GenerateMatrixDiff_statd_unmarked:
  "elems statd_store (Matrix (matrix_at 0 statd_store)) = [] \<and>
   fst (GenerateMatrixDiff std_extern statd_store (matrix_at 0 statd_store) (matrix_at 1 statd_store)) =
     Inr (csv_header @ NL @ ''Ingress,UDP,53,,rpc.statd,,,master,false'' @ NL)"
  by code_simp

text \<open>
  Where the marks are as intended: let the two matrices lie in different arrays, the receiver
  have no spare capacity, every record have a non-negative port and a protocol without \<^verbatim>\<open>-\<close>,
  and no two different records have the same rendering. Then the report is the header line
  followed by
  one line for each record of the combined matrix, in its order, and the line carries exactly
  one of \<^verbatim>\<open>+\<close>, \<^verbatim>\<open>-\<close> or no mark: \<^verbatim>\<open>+\<close> when the identity is in the first matrix only, \<^verbatim>\<open>-\<close> when
  it is in the second only, none when it is in both, and none for a record of service
  \<^verbatim>\<open>rpc.statd\<close> that is in the second only.
\<close>

lemma GenerateMatrixDiff_marks:
  assumes spec: "SortFunc_spec E"
    and wm: "wf_slice st (Matrix m)" and wo: "wf_slice st (Matrix other)"
    and ne: "base (Matrix m) \<noteq> base (Matrix other)"
    and nospare: "cap st (Matrix m) = len (Matrix m)"
    and pk: "\<forall>cd\<in>set (elems st (Matrix m)) \<union> set (elems st (Matrix other)). plain_key cd"
    and inj: "inj_on String_ComDetails (set (elems st (Matrix m)) \<union> set (elems st (Matrix other)))"
  shows "fst (GenerateMatrixDiff E st m other) =
           Inr (csv_header @ NL @
                concat (map (\<lambda>cd. spec_mark (elems st (Matrix m)) (elems st (Matrix other)) cd @
                                   String_ComDetails cd @ NL)
                          (matrix_elems (combine E st m other))))"
proof -
  let ?A = "elems st (Matrix m)" and ?B = "elems st (Matrix other)"
  obtain cm st1 where c: "combine E st m other = (cm, st1)" by (cases "combine E st m other")
  note ce = combine_effect [OF spec wm wo ne c]
  let ?U = "elems st1 (Matrix cm)"
  let ?mp = "markDiffBetweenMatrices st1 m other"
  have B1: "elems st1 (Matrix other) = ?B" by (rule ce(2))
  have A1: "set (elems st1 (Matrix m)) = set ?A" by (rule ce(4) [OF nospare])
  have pkA: "\<forall>cd\<in>set ?A. plain_key cd" and pkB: "\<forall>cd\<in>set ?B. plain_key cd"
    using pk by auto
  have U: "set ?U = set ?A \<union> set (appended ?A ?B)"
    unfolding ce(1) using SortFunc_set [OF spec] by simp
  have line: "diff_entry ?mp cd [] = spec_mark ?A ?B cd @ String_ComDetails cd @ NL"
    if cdU: "cd \<in> set ?U" for cd
  proof -
    have cdAB: "cd \<in> set ?A \<union> set ?B" using cdU U by (auto simp: set_appended)
    then have pc: "plain_key cd" using pk by blast
    have inA: "Contains st1 m cd \<longleftrightarrow> spec_identity cd \<in> spec_identity ` set ?A"
      by (rule Contains_plain [OF pkA pc A1])
    have inB: "Contains st1 other cd \<longleftrightarrow> spec_identity cd \<in> spec_identity ` set ?B"
      by (rule Contains_plain [OF pkB pc]) (simp add: B1)
    have "insert cd (set (elems st1 (Matrix m)) \<union> set (elems st1 (Matrix other))) = set ?A \<union> set ?B"
      using cdAB A1 B1 by auto
    then have "inj_on String_ComDetails (insert cd (set (elems st1 (Matrix m)) \<union> set (elems st1 (Matrix other))))"
      using inj by simp
    from sign_of_record [OF this refl refl]
    have sign: "map_get ?mp (String_ComDetails cd) =
        (if cd \<in> set ?B \<and> Service cd \<noteq> ''rpc.statd'' \<and> spec_identity cd \<notin> spec_identity ` set ?A then - 1
         else if cd \<in> set ?A then (if spec_identity cd \<in> spec_identity ` set ?B then 0 else 1)
         else 0)"
      using inA inB A1 B1 by simp
    show ?thesis
    proof (cases "cd \<in> set ?A")
      case True
      then have "spec_identity cd \<in> spec_identity ` set ?A" by (rule imageI)
      with True sign show ?thesis
        by (simp add: diff_entry_def spec_mark_def Let_def)
    next
      case False
      with cdU U have "cd \<in> set (appended ?A ?B)" by simp
      then have cb: "cd \<in> set ?B" and nc: "\<not> Contains_loop ?A cd" by (simp_all add: set_appended)
      from nc have "spec_identity cd \<notin> spec_identity ` set ?A"
        using Contains_loop_plain [OF pkA pc] by simp
      with False cb sign show ?thesis
        by (simp add: diff_entry_def spec_mark_def Let_def)
    qed
  qed
  have "fst (GenerateMatrixDiff E st m other) = Inr (fold (diff_entry ?mp) ?U (csv_header @ NL))"
    by (simp add: GenerateMatrixDiff_def c headers_csv Let_def)
  also have "fold (diff_entry ?mp) ?U (csv_header @ NL) =
      (csv_header @ NL) @ concat (map (\<lambda>cd. diff_entry ?mp cd []) ?U)"
    by (rule diff_entry_fold)
  also have "map (\<lambda>cd. diff_entry ?mp cd []) ?U =
      map (\<lambda>cd. spec_mark ?A ?B cd @ String_ComDetails cd @ NL) ?U"
    by (rule map_cong [OF refl]) (rule line)
  finally show ?thesis using c by (simp add: matrix_elems_def)
qed

lemma GenerateMatrixDiff_marks_run:
  "SortFunc_spec std_extern \<and>
   cap diff_store (Matrix (matrix_at 0 diff_store)) = len (Matrix (matrix_at 0 diff_store)) \<and>
   fst (GenerateMatrixDiff std_extern diff_store (matrix_at 0 diff_store) (matrix_at 1 diff_store)) =
     Inr (csv_header @ NL @
          ''Ingress,TCP,22,,sshd,,,master,false'' @ NL @
          ''+ Ingress,TCP,64,,api,,,master,false'' @ NL @
          ''- Ingress,TCP,99,,extra,,,master,false'' @ NL @
          ''Ingress,UDP,53,,rpc.statd,,,master,false'' @ NL)"
proof -
  let ?m = "matrix_at 0 diff_store" and ?o = "matrix_at 1 diff_store"
  have w0: "wf_slice diff_store (Matrix ?m)" by code_simp
  have w1: "wf_slice diff_store (Matrix ?o)" by code_simp
  have ne: "base (Matrix ?m) \<noteq> base (Matrix ?o)" by code_simp
  have ns: "cap diff_store (Matrix ?m) = len (Matrix ?m)" by code_simp
  have pk: "\<forall>cd\<in>set (elems diff_store (Matrix ?m)) \<union> set (elems diff_store (Matrix ?o)). plain_key cd"
    by code_simp
  have pf: "\<forall>cd\<in>set (elems diff_store (Matrix ?m)) \<union> set (elems diff_store (Matrix ?o)). plain_fields cd"
    by code_simp
  have rhs: "csv_header @ NL @
      concat (map (\<lambda>cd. spec_mark (elems diff_store (Matrix ?m)) (elems diff_store (Matrix ?o)) cd @
                         String_ComDetails cd @ NL)
                (matrix_elems (combine std_extern diff_store ?m ?o))) =
     csv_header @ NL @
          ''Ingress,TCP,22,,sshd,,,master,false'' @ NL @
          ''+ Ingress,TCP,64,,api,,,master,false'' @ NL @
          ''- Ingress,TCP,99,,extra,,,master,false'' @ NL @
          ''Ingress,UDP,53,,rpc.statd,,,master,false'' @ NL"
    by code_simp
  from GenerateMatrixDiff_marks [OF SortFunc_spec_std w0 w1 ne ns pk plain_fields_inj_on [OF pf]]
    rhs SortFunc_spec_std ns
  show ?thesis by simp
qed

text \<open>
  Claim C9: a record of service \<^verbatim>\<open>rpc.statd\<close> that is in the second matrix only never gets
  the mark \<^verbatim>\<open>-\<close>. The marking loop skips it, and its sign stays 0 as long as no other record
  has the same rendering (\<open>rpc_statd_sign_zero\<close>). The signs are kept under the rendering of the
  record, though, and a comma inside a field lets two records share one: here the second
  record has service \<^verbatim>\<open>rpc.statd\<close>, the first has service \<^verbatim>\<open>rpc.statd,a\<close> and the same
  rendering, and both lines carry \<^verbatim>\<open>-\<close>.
\<close>

theorem GenerateMatrixDiff_statd_minus:
  "elems comma_store (Matrix (matrix_at 0 comma_store)) = [] \<and>
   Service (elems comma_store (Matrix (matrix_at 1 comma_store)) ! 1) = ''rpc.statd'' \<and>
   fst (GenerateMatrixDiff std_extern comma_store (matrix_at 0 comma_store) (matrix_at 1 comma_store)) =
     Inr (csv_header @ NL @
          ''- Ingress,UDP,53,,rpc.statd,a,b,,master,false'' @ NL @
          ''- Ingress,UDP,53,,rpc.statd,a,b,,master,false'' @ NL)"
  by code_simp

end
